theory Spec2Isabelle
  imports Main "HOL-Library.Word"
begin

section \<open>Failed-literal probing (sat/sat\_probing.cpp)\<close>

text \<open>
  A shallow embedding of the probing pass of the SAT solver: the implication cache
  (\<open>reset_cache\<close>, \<open>cache_bins\<close>), the single-literal prober \<open>try_lit\<close>, the
  variable processor (\<open>process_core\<close>, \<open>process\<close>) and the driver (\<open>operator()\<close>,
  here \<open>run\<close>). Mutable members become record fields; every procedure takes the pair
  of the solver and the probing object and returns it updated.
\<close>

subsection \<open>Literals\<close>

type_synonym bool_var = nat

text \<open>
  \<open>literal(v, sign)\<close>: \<open>sign = False\<close> is the positive literal of \<open>v\<close>. The dense index
  is \<open>2 * v + sign\<close>, and \<open>~l\<close> flips the sign.
\<close>

datatype sat_literal = Lit (var: bool_var) (sign: bool)

definition index :: "sat_literal \<Rightarrow> nat" where
  "index l = 2 * var l + (if sign l then 1 else 0)"

definition neg :: "sat_literal \<Rightarrow> sat_literal" where
  "neg l = Lit (var l) (\<not> sign l)"

datatype lbool = l_false | l_undef | l_true

datatype watched = Watched (is_binary_clause: bool) (get_literal: sat_literal)

datatype drat_entry = Drat_add sat_literal sat_literal | Drat_conflict

subsection \<open>The solver that probing drives\<close>

text \<open>
  Modelled from the spec: the search engine \<open>sat::solver\<close> (sat/sat\_solver.h is not part
  of the sources at hand), reduced to the interface of section 6 of the specification:
  scopes that are pushed and popped, a trail that assignment and propagation append to
  and that a pop truncates, a persistent inconsistency flag, unit propagation to
  fixpoint over the clause set, the watch lists, the elimination marks, the proof log
  and the cancellation hook. The watch lists are taken as given; \<open>m_rlimit\<close> is the
  number of checkpoints the external limit still lets pass (\<open>None\<close>: it never
  cancels); \<open>m_allocation_size\<close> is what \<open>memory::get_allocation_size()\<close> reads.
\<close>

record solver =
  m_clauses :: "sat_literal list list"
  m_watches :: "sat_literal \<Rightarrow> watched list"
  m_num_vars :: nat
  m_eliminated :: "bool_var set"
  m_trail :: "sat_literal list"
  m_scopes :: "nat list"
  m_inconsistent :: bool
  m_is_probing :: bool
  m_drat_enabled :: bool
  m_drat :: "drat_entry list"
  m_rlimit :: "nat option"
  m_allocation_size :: nat

definition lit_value :: "solver \<Rightarrow> sat_literal \<Rightarrow> lbool" where
  "lit_value s l =
     (if l \<in> set (m_trail s) then l_true
      else if neg l \<in> set (m_trail s) then l_false
      else l_undef)"

definition var_value :: "solver \<Rightarrow> bool_var \<Rightarrow> lbool" where
  "var_value s v = lit_value s (Lit v False)"

definition was_eliminated :: "solver \<Rightarrow> bool_var \<Rightarrow> bool" where
  "was_eliminated s v = (v \<in> m_eliminated s)"

definition inconsistent :: "solver \<Rightarrow> bool" where
  "inconsistent s = m_inconsistent s"

definition num_vars :: "solver \<Rightarrow> nat" where
  "num_vars s = m_num_vars s"

definition scope_lvl :: "solver \<Rightarrow> nat" where
  "scope_lvl s = length (m_scopes s)"

definition get_wlist :: "solver \<Rightarrow> sat_literal \<Rightarrow> watched list" where
  "get_wlist s l = m_watches s l"

definition push :: "solver \<Rightarrow> solver" where
  "push s = s\<lparr>m_scopes := length (m_trail s) # m_scopes s\<rparr>"

text \<open>
  \<open>pop n\<close> closes \<open>n\<close> scopes: the trail is cut back to its size at the matching push and
  the conflict of the closed scope is forgotten. Popping more scopes than are open is
  a contract violation of the caller; the model stops at the outermost level.
\<close>

fun pop :: "nat \<Rightarrow> solver \<Rightarrow> solver" where
  "pop 0 s = s"
| "pop (Suc n) s =
     (case m_scopes s of
        [] \<Rightarrow> s
      | sz # rest \<Rightarrow>
          pop n (s\<lparr>m_trail := take sz (m_trail s), m_scopes := rest,
                   m_inconsistent := False\<rparr>))"

text \<open>
  \<open>assign_scoped l\<close>: a literal that is already true stays as it is, an unassigned one
  goes on the trail, a false one is a conflict.
\<close>

definition assign_scoped :: "sat_literal \<Rightarrow> solver \<Rightarrow> solver" where
  "assign_scoped l s =
     (case lit_value s l of
        l_true \<Rightarrow> s
      | l_undef \<Rightarrow> s\<lparr>m_trail := m_trail s @ [l]\<rparr>
      | l_false \<Rightarrow> s\<lparr>m_inconsistent := True\<rparr>)"

text \<open>
  Unit propagation. One clause: nothing while the solver is in conflict or the clause
  has a true literal; a conflict when every literal is false; the assignment of the
  last unassigned literal when all the others are false.
\<close>

definition propagate_clause :: "sat_literal list \<Rightarrow> solver \<Rightarrow> solver" where
  "propagate_clause c s =
     (if m_inconsistent s then s
      else if list_ex (\<lambda>l. lit_value s l = l_true) c then s
      else (case remdups (filter (\<lambda>l. lit_value s l = l_undef) c) of
              [] \<Rightarrow> s\<lparr>m_inconsistent := True\<rparr>
            | [u] \<Rightarrow> s\<lparr>m_trail := m_trail s @ [u]\<rparr>
            | _ \<Rightarrow> s))"

definition propagate_round :: "solver \<Rightarrow> solver" where
  "propagate_round s = fold propagate_clause (m_clauses s) s"

text \<open>The literals of the clause set that are not on the trail: what is left to assign.\<close>

definition unassigned_lits :: "solver \<Rightarrow> sat_literal set" where
  "unassigned_lits s = (\<Union>c \<in> set (m_clauses s). set c) - set (m_trail s)"

lemma propagate_clause_clauses [simp]:
  "m_clauses (propagate_clause c s) = m_clauses s"
  by (simp add: propagate_clause_def split: list.splits)

lemma propagate_clause_trail:
  "\<exists>us. m_trail (propagate_clause c s) = m_trail s @ us \<and> set us \<subseteq> set c - set (m_trail s)"
proof -
  have "u \<in> set c \<and> u \<notin> set (m_trail s)"
    if "remdups (filter (\<lambda>l. lit_value s l = l_undef) c) = [u]" for u
  proof -
    from that have "u \<in> set (filter (\<lambda>l. lit_value s l = l_undef) c)"
      by (metis list.set_intros(1) set_remdups)
    then show ?thesis
      by (auto simp: lit_value_def split: if_splits)
  qed
  then show ?thesis
    by (auto simp: propagate_clause_def split: list.splits)
qed

lemma fold_propagate_clause_clauses [simp]:
  "m_clauses (fold propagate_clause cs s) = m_clauses s"
  by (induction cs arbitrary: s) simp_all

lemma fold_propagate_clause_trail:
  "\<exists>us. m_trail (fold propagate_clause cs s) = m_trail s @ us
        \<and> set us \<subseteq> (\<Union>c \<in> set cs. set c) - set (m_trail s)"
proof (induction cs arbitrary: s)
  case Nil
  then show ?case by simp
next
  case (Cons c cs)
  obtain us where us: "m_trail (propagate_clause c s) = m_trail s @ us"
    "set us \<subseteq> set c - set (m_trail s)"
    using propagate_clause_trail by blast
  obtain vs where vs:
    "m_trail (fold propagate_clause cs (propagate_clause c s)) = m_trail (propagate_clause c s) @ vs"
    "set vs \<subseteq> (\<Union>c \<in> set cs. set c) - set (m_trail (propagate_clause c s))"
    using Cons.IH by blast
  have "m_trail (fold propagate_clause (c # cs) s) = m_trail s @ (us @ vs)"
    using us vs by simp
  moreover have "set (us @ vs) \<subseteq> (\<Union>c \<in> set (c # cs). set c) - set (m_trail s)"
    using us vs by auto
  ultimately show ?case by blast
qed

lemma propagate_round_clauses [simp]: "m_clauses (propagate_round s) = m_clauses s"
  by (simp add: propagate_round_def)

lemma propagate_round_trail:
  "\<exists>us. m_trail (propagate_round s) = m_trail s @ us \<and> set us \<subseteq> unassigned_lits s"
  using fold_propagate_clause_trail [of "m_clauses s" s]
  by (simp add: propagate_round_def unassigned_lits_def)

lemma finite_unassigned_lits [simp]: "finite (unassigned_lits s)"
  by (simp add: unassigned_lits_def)

lemma propagate_round_decreases:
  assumes "length (m_trail (propagate_round s)) \<noteq> length (m_trail s)"
  shows "card (unassigned_lits (propagate_round s)) < card (unassigned_lits s)"
proof -
  obtain us where us: "m_trail (propagate_round s) = m_trail s @ us"
    "set us \<subseteq> unassigned_lits s"
    using propagate_round_trail by blast
  with assms obtain u where u: "u \<in> set us"
    by (cases us) auto
  have "unassigned_lits (propagate_round s) \<subseteq> unassigned_lits s - {u}"
    using us u by (auto simp: unassigned_lits_def)
  moreover have "u \<in> unassigned_lits s"
    using us u by blast
  ultimately have "unassigned_lits (propagate_round s) \<subset> unassigned_lits s"
    by blast
  then show ?thesis
    by (simp add: psubset_card_mono)
qed

text \<open>Rounds are repeated until one of them finds a conflict or assigns nothing.\<close>

function propagate_loop :: "solver \<Rightarrow> solver" where
  "propagate_loop s =
     (let s' = propagate_round s in
      if m_inconsistent s' \<or> length (m_trail s') = length (m_trail s) then s'
      else propagate_loop s')"
  by pat_completeness auto
termination
  by (relation "measure (\<lambda>s. card (unassigned_lits s))")
    (auto simp: propagate_round_decreases)

definition propagate :: "solver \<Rightarrow> solver" where
  "propagate s = propagate_loop s"

definition drat_explain_conflict :: "solver \<Rightarrow> solver" where
  "drat_explain_conflict s =
     (if m_drat_enabled s then s\<lparr>m_drat := m_drat s @ [Drat_conflict]\<rparr> else s)"

text \<open>
  \<open>checkpoint\<close> throws when the external limit cancels the computation: \<open>None\<close> is the
  exception.
\<close>

definition checkpoint :: "solver \<Rightarrow> solver option" where
  "checkpoint s =
     (case m_rlimit s of
        None \<Rightarrow> Some s
      | Some 0 \<Rightarrow> None
      | Some (Suc k) \<Rightarrow> Some (s\<lparr>m_rlimit := Some k\<rparr>))"

subsection \<open>The probing object\<close>

record cache_entry =
  m_available :: bool
  m_lits :: "sat_literal list"

text \<open>
  The members of \<open>class probing\<close>. \<open>m_counter\<close> is a C++ \<open>int\<close>, whose overflow is
  undefined behaviour: it is an unbounded integer here. \<open>m_num_assigned\<close> and
  \<open>m_probing_limit\<close> are \<open>unsigned\<close>: 32-bit words. Variable numbers and sizes are
  natural numbers.
\<close>

record probing =
  m_stopped_at :: nat
  m_assigned :: "sat_literal set"
  m_to_assert :: "sat_literal list"
  m_probing :: bool
  m_probing_limit :: "32 word"
  m_probing_cache :: bool
  m_probing_binary :: bool
  m_probing_cache_limit :: nat
  m_counter :: int
  m_num_assigned :: "32 word"
  m_equivs :: "(sat_literal \<times> sat_literal) list"
  m_cached_bins :: "cache_entry list"

subsection \<open>The implication cache\<close>

text \<open>
  \<open>vector::reserve(n)\<close> of the solver's utility library grows the vector to \<open>n\<close>
  elements, the new ones default-constructed (\<open>cache_entry()\<close>: not available, no
  literals), and leaves a vector that is long enough as it is. Indexing a vector
  outside its size is undefined behaviour: \<open>vec_get\<close> and \<open>vec_set\<close> return \<open>None\<close>
  there.
\<close>

definition vec_reserve :: "nat \<Rightarrow> cache_entry list \<Rightarrow> cache_entry list" where
  "vec_reserve n xs = xs @ replicate (n - length xs) \<lparr>m_available = False, m_lits = []\<rparr>"

definition vec_get :: "'a list \<Rightarrow> nat \<Rightarrow> 'a option" where
  "vec_get xs i = (if i < length xs then Some (xs ! i) else None)"

definition vec_set :: "'a list \<Rightarrow> nat \<Rightarrow> 'a \<Rightarrow> 'a list option" where
  "vec_set xs i x = (if i < length xs then Some (xs[i := x]) else None)"

text \<open>
  \<open>reset_cache\<close>, with every access to \<open>m_cached_bins\<close> checked: \<open>None\<close> would be an
  access outside the vector.
\<close>

definition reset_cache_checked :: "sat_literal \<Rightarrow> probing \<Rightarrow> probing option" where
  "reset_cache_checked l p =
     (if index l < length (m_cached_bins p) then
        (case vec_get (m_cached_bins p) (index l) of
           None \<Rightarrow> None
         | Some e \<Rightarrow>
             (case vec_set (m_cached_bins p) (index l) (e\<lparr>m_available := False, m_lits := []\<rparr>) of
                None \<Rightarrow> None
              | Some bins \<Rightarrow> Some (p\<lparr>m_cached_bins := bins\<rparr>)))
      else Some p)"

text \<open>\<open>reset_cache\<close> as the rest of the pass uses it.\<close>

definition reset_cache :: "sat_literal \<Rightarrow> probing \<Rightarrow> probing" where
  "reset_cache l p =
     (if index l < length (m_cached_bins p) then
        p\<lparr>m_cached_bins :=
            (m_cached_bins p)[index l := (m_cached_bins p ! index l)\<lparr>m_available := False, m_lits := []\<rparr>]\<rparr>
      else p)"

text \<open>
  \<open>cache_bins l old_tr_sz\<close>: the literals on the trail from position \<open>old_tr_sz\<close> on
  become the entry of \<open>l\<close>, and each of them is logged with \<open>~l\<close> when proof logging
  is on. Nothing happens when the cache is disabled or memory is short.
\<close>

definition cache_bins_checked ::
  "sat_literal \<Rightarrow> nat \<Rightarrow> solver \<times> probing \<Rightarrow> (solver \<times> probing) option" where
  "cache_bins_checked l old_tr_sz sp =
     (case sp of (s, p) \<Rightarrow>
        if \<not> m_probing_cache p then Some (s, p)
        else if m_allocation_size s > m_probing_cache_limit p then Some (s, p)
        else
          (let bins = vec_reserve (index l + 1) (m_cached_bins p);
               frag = drop old_tr_sz (m_trail s)
           in case vec_get bins (index l) of
                None \<Rightarrow> None
              | Some e \<Rightarrow>
                  (case vec_set bins (index l) (e\<lparr>m_available := True, m_lits := frag\<rparr>) of
                     None \<Rightarrow> None
                   | Some bins' \<Rightarrow>
                       Some (if m_drat_enabled s
                             then s\<lparr>m_drat := m_drat s @ map (Drat_add (neg l)) frag\<rparr>
                             else s,
                             p\<lparr>m_cached_bins := bins'\<rparr>))))"

definition cache_bins :: "sat_literal \<Rightarrow> nat \<Rightarrow> solver \<times> probing \<Rightarrow> solver \<times> probing" where
  "cache_bins l old_tr_sz sp =
     (case sp of (s, p) \<Rightarrow>
        if \<not> m_probing_cache p then (s, p)
        else if m_allocation_size s > m_probing_cache_limit p then (s, p)
        else
          (let bins = vec_reserve (index l + 1) (m_cached_bins p);
               frag = drop old_tr_sz (m_trail s)
           in (if m_drat_enabled s
               then s\<lparr>m_drat := m_drat s @ map (Drat_add (neg l)) frag\<rparr>
               else s,
               p\<lparr>m_cached_bins := bins[index l := (bins ! index l)\<lparr>m_available := True, m_lits := frag\<rparr>]\<rparr>)))"

text \<open>
  Modelled from the spec: \<open>cached_implied_lits\<close> is declared in sat/sat\_probing.h, which
  is not part of the sources at hand. It is the \<open>lookup\<close> of section 4.1: the cached
  consequence list of the literal if one is available, and nothing when the cache is
  disabled by configuration or holds no entry for the literal.
\<close>

definition cached_implied_lits :: "probing \<Rightarrow> sat_literal \<Rightarrow> sat_literal list option" where
  "cached_implied_lits p l =
     (if \<not> m_probing_cache p then None
      else if index l \<ge> length (m_cached_bins p) then None
      else if \<not> m_available (m_cached_bins p ! index l) then None
      else Some (m_lits (m_cached_bins p ! index l)))"

subsection \<open>The single-literal prober\<close>

text \<open>
  The body shared by the two loops of \<open>try_lit\<close> that assert a literal: two proof-log
  lines when proof logging is on, the assignment at the current scope, and one more
  counted assignment.
\<close>

definition assert_lit :: "sat_literal \<Rightarrow> sat_literal \<Rightarrow> solver \<times> probing \<Rightarrow> solver \<times> probing" where
  "assert_lit l lit sp =
     (case sp of (s, p) \<Rightarrow>
        (assign_scoped lit
           (if m_drat_enabled s
            then s\<lparr>m_drat := m_drat s @ [Drat_add l lit, Drat_add (neg l) lit]\<rparr>
            else s),
         p\<lparr>m_num_assigned := m_num_assigned p + 1\<rparr>))"

text \<open>The loop over the cached literals: only those in \<open>m_assigned\<close> are asserted.\<close>

fun assert_implied :: "sat_literal \<Rightarrow> sat_literal list \<Rightarrow> solver \<times> probing \<Rightarrow> solver \<times> probing" where
  "assert_implied l [] sp = sp"
| "assert_implied l (lit # lits) sp =
     assert_implied l lits (if lit \<in> m_assigned (snd sp) then assert_lit l lit sp else sp)"

text \<open>The loop over \<open>m_to_assert\<close>.\<close>

fun assert_all :: "sat_literal \<Rightarrow> sat_literal list \<Rightarrow> solver \<times> probing \<Rightarrow> solver \<times> probing" where
  "assert_all l [] sp = sp"
| "assert_all l (lit # lits) sp = assert_all l lits (assert_lit l lit sp)"

definition try_lit :: "sat_literal \<Rightarrow> bool \<Rightarrow> solver \<times> probing \<Rightarrow> bool \<times> solver \<times> probing" where
  "try_lit l updt_cache sp =
     (case sp of (s, p) \<Rightarrow>
        (case (if updt_cache then None else cached_implied_lits p l) of
           Some implied_lits \<Rightarrow>
             (case assert_implied l implied_lits (s, p) of (s1, p1) \<Rightarrow>
                (let s2 = propagate s1 in (\<not> inconsistent s2, s2, p1)))
         | None \<Rightarrow>
             (let p1 = p\<lparr>m_to_assert := []\<rparr>;
                  s1 = push s;
                  s2 = assign_scoped l s1;
                  p2 = p1\<lparr>m_counter := m_counter p1 - 1\<rparr>;
                  old_tr_sz = length (m_trail s2);
                  s3 = propagate s2
              in if inconsistent s3 then
                   (let s4 = drat_explain_conflict s3;
                        s5 = pop 1 s4;
                        s6 = assign_scoped (neg l) s5;
                        s7 = propagate s6
                    in (False, s7, p2))
                 else
                   (let p3 = p2\<lparr>m_to_assert :=
                                 filter (\<lambda>lit. lit \<in> m_assigned p2) (drop old_tr_sz (m_trail s3))\<rparr>
                    in case (if updt_cache then cache_bins l old_tr_sz (s3, p3) else (s3, p3)) of
                         (s4, p4) \<Rightarrow>
                           (case assert_all l (m_to_assert p4) (pop 1 s4, p4) of
                              (s6, p6) \<Rightarrow>
                                (let s7 = propagate s6 in (\<not> inconsistent s7, s7, p6)))))))"

subsection \<open>What the solver operations leave unchanged\<close>

declare propagate_loop.simps [simp del]

lemma propagate_clause_frame:
  "\<exists>t b. propagate_clause c s = s\<lparr>m_trail := t, m_inconsistent := b\<rparr>"
proof -
  have a: "\<exists>t b. s = s\<lparr>m_trail := t, m_inconsistent := b\<rparr>"
    by (rule exI [of _ "m_trail s"], rule exI [of _ "m_inconsistent s"]) simp
  have b: "\<exists>t b. s\<lparr>m_inconsistent := True\<rparr> = s\<lparr>m_trail := t, m_inconsistent := b\<rparr>"
    by (rule exI [of _ "m_trail s"], rule exI [of _ True]) simp
  have c: "\<exists>t b. s\<lparr>m_trail := m_trail s @ [u]\<rparr> = s\<lparr>m_trail := t, m_inconsistent := b\<rparr>" for u
    by (rule exI [of _ "m_trail s @ [u]"], rule exI [of _ "m_inconsistent s"]) simp
  show ?thesis
    unfolding propagate_clause_def using a b c by (simp split: list.splits)
qed

lemma fold_propagate_clause_frame:
  "\<exists>t b. fold propagate_clause cs s = s\<lparr>m_trail := t, m_inconsistent := b\<rparr>"
proof (induction cs arbitrary: s)
  case Nil
  have "s = s\<lparr>m_trail := m_trail s, m_inconsistent := m_inconsistent s\<rparr>"
    by simp
  then show ?case by (metis fold_simps(1))
next
  case (Cons c cs)
  obtain t b where 1: "propagate_clause c s = s\<lparr>m_trail := t, m_inconsistent := b\<rparr>"
    using propagate_clause_frame by blast
  obtain t' b' where 2: "fold propagate_clause cs (propagate_clause c s)
      = (propagate_clause c s)\<lparr>m_trail := t', m_inconsistent := b'\<rparr>"
    using Cons.IH by blast
  have "fold propagate_clause (c # cs) s = s\<lparr>m_trail := t', m_inconsistent := b'\<rparr>"
    using 2 by (simp add: 1)
  then show ?case by blast
qed

lemma propagate_frame:
  "\<exists>t b. propagate s = s\<lparr>m_trail := t, m_inconsistent := b\<rparr>"
  unfolding propagate_def
proof (induction s rule: propagate_loop.induct)
  case (1 s)
  obtain t b where r: "propagate_round s = s\<lparr>m_trail := t, m_inconsistent := b\<rparr>"
    unfolding propagate_round_def using fold_propagate_clause_frame by blast
  show ?case
  proof (cases "m_inconsistent (propagate_round s)
      \<or> length (m_trail (propagate_round s)) = length (m_trail s)")
    case True
    then have "propagate_loop s = propagate_round s"
      by (subst propagate_loop.simps) (simp add: Let_def)
    with r show ?thesis by metis
  next
    case False
    then have eq: "propagate_loop s = propagate_loop (propagate_round s)"
      by (subst propagate_loop.simps) (simp add: Let_def)
    from False "1.IH" [OF refl] obtain t' b' where
      "propagate_loop (propagate_round s) = (propagate_round s)\<lparr>m_trail := t', m_inconsistent := b'\<rparr>"
      by blast
    then have "propagate_loop s = s\<lparr>m_trail := t', m_inconsistent := b'\<rparr>"
      using eq by (simp add: r)
    then show ?thesis by blast
  qed
qed

lemma propagate_fields [simp]:
  "m_clauses (propagate s) = m_clauses s"
  "m_watches (propagate s) = m_watches s"
  "m_num_vars (propagate s) = m_num_vars s"
  "m_eliminated (propagate s) = m_eliminated s"
  "m_scopes (propagate s) = m_scopes s"
  "m_is_probing (propagate s) = m_is_probing s"
  "m_drat_enabled (propagate s) = m_drat_enabled s"
  "m_drat (propagate s) = m_drat s"
  "m_rlimit (propagate s) = m_rlimit s"
  "m_allocation_size (propagate s) = m_allocation_size s"
proof -
  obtain t b where "propagate s = s\<lparr>m_trail := t, m_inconsistent := b\<rparr>"
    using propagate_frame by blast
  then show
    "m_clauses (propagate s) = m_clauses s"
    "m_watches (propagate s) = m_watches s"
    "m_num_vars (propagate s) = m_num_vars s"
    "m_eliminated (propagate s) = m_eliminated s"
    "m_scopes (propagate s) = m_scopes s"
    "m_is_probing (propagate s) = m_is_probing s"
    "m_drat_enabled (propagate s) = m_drat_enabled s"
    "m_drat (propagate s) = m_drat s"
    "m_rlimit (propagate s) = m_rlimit s"
    "m_allocation_size (propagate s) = m_allocation_size s"
    by simp_all
qed

lemma propagate_trail: "\<exists>us. m_trail (propagate s) = m_trail s @ us"
  unfolding propagate_def
proof (induction s rule: propagate_loop.induct)
  case (1 s)
  obtain us where r: "m_trail (propagate_round s) = m_trail s @ us"
    using propagate_round_trail by blast
  show ?case
  proof (cases "m_inconsistent (propagate_round s)
      \<or> length (m_trail (propagate_round s)) = length (m_trail s)")
    case True
    then have "propagate_loop s = propagate_round s"
      by (subst propagate_loop.simps) (simp add: Let_def)
    with r show ?thesis by simp
  next
    case False
    then have eq: "propagate_loop s = propagate_loop (propagate_round s)"
      by (subst propagate_loop.simps) (simp add: Let_def)
    from False "1.IH" [OF refl] obtain vs where
      "m_trail (propagate_loop (propagate_round s)) = m_trail (propagate_round s) @ vs"
      by blast
    then show ?thesis
      using eq r by simp
  qed
qed

lemma assign_scoped_fields [simp]:
  "m_clauses (assign_scoped l s) = m_clauses s"
  "m_watches (assign_scoped l s) = m_watches s"
  "m_num_vars (assign_scoped l s) = m_num_vars s"
  "m_eliminated (assign_scoped l s) = m_eliminated s"
  "m_scopes (assign_scoped l s) = m_scopes s"
  "m_is_probing (assign_scoped l s) = m_is_probing s"
  "m_drat_enabled (assign_scoped l s) = m_drat_enabled s"
  "m_drat (assign_scoped l s) = m_drat s"
  "m_rlimit (assign_scoped l s) = m_rlimit s"
  "m_allocation_size (assign_scoped l s) = m_allocation_size s"
  by (simp_all add: assign_scoped_def split: lbool.splits)

lemma assign_scoped_trail: "\<exists>us. m_trail (assign_scoped l s) = m_trail s @ us"
  by (simp add: assign_scoped_def split: lbool.splits)

lemma push_fields [simp]:
  "m_clauses (push s) = m_clauses s"
  "m_watches (push s) = m_watches s"
  "m_num_vars (push s) = m_num_vars s"
  "m_eliminated (push s) = m_eliminated s"
  "m_trail (push s) = m_trail s"
  "m_scopes (push s) = length (m_trail s) # m_scopes s"
  "m_inconsistent (push s) = m_inconsistent s"
  "m_is_probing (push s) = m_is_probing s"
  "m_drat_enabled (push s) = m_drat_enabled s"
  "m_drat (push s) = m_drat s"
  "m_rlimit (push s) = m_rlimit s"
  "m_allocation_size (push s) = m_allocation_size s"
  by (simp_all add: push_def)

lemma pop_fields [simp]:
  "m_clauses (pop n s) = m_clauses s"
  "m_watches (pop n s) = m_watches s"
  "m_num_vars (pop n s) = m_num_vars s"
  "m_eliminated (pop n s) = m_eliminated s"
  "m_is_probing (pop n s) = m_is_probing s"
  "m_drat_enabled (pop n s) = m_drat_enabled s"
  "m_drat (pop n s) = m_drat s"
  "m_rlimit (pop n s) = m_rlimit s"
  "m_allocation_size (pop n s) = m_allocation_size s"
  by (induction n s rule: pop.induct; simp split: list.splits)+

lemma drat_explain_conflict_fields [simp]:
  "m_clauses (drat_explain_conflict s) = m_clauses s"
  "m_watches (drat_explain_conflict s) = m_watches s"
  "m_num_vars (drat_explain_conflict s) = m_num_vars s"
  "m_eliminated (drat_explain_conflict s) = m_eliminated s"
  "m_trail (drat_explain_conflict s) = m_trail s"
  "m_scopes (drat_explain_conflict s) = m_scopes s"
  "m_inconsistent (drat_explain_conflict s) = m_inconsistent s"
  "m_is_probing (drat_explain_conflict s) = m_is_probing s"
  "m_drat_enabled (drat_explain_conflict s) = m_drat_enabled s"
  "m_rlimit (drat_explain_conflict s) = m_rlimit s"
  "m_allocation_size (drat_explain_conflict s) = m_allocation_size s"
  by (simp_all add: drat_explain_conflict_def)

declare pop.simps [simp del]

lemma cache_bins_static:
  "cache_bins l n (s, p) = (s', p') \<Longrightarrow>
     m_clauses s' = m_clauses s \<and> m_watches s' = m_watches s \<and> m_num_vars s' = m_num_vars s
     \<and> m_eliminated s' = m_eliminated s \<and> m_trail s' = m_trail s \<and> m_scopes s' = m_scopes s
     \<and> m_inconsistent s' = m_inconsistent s \<and> m_is_probing s' = m_is_probing s
     \<and> m_drat_enabled s' = m_drat_enabled s \<and> m_rlimit s' = m_rlimit s
     \<and> m_allocation_size s' = m_allocation_size s"
  by (auto simp: cache_bins_def Let_def split: if_splits)

lemma assert_lit_watches:
  "m_watches (fst (assert_lit l lit sp)) = m_watches (fst sp)"
  by (cases sp) (simp add: assert_lit_def)

lemma assert_implied_watches:
  "m_watches (fst (assert_implied l lits sp)) = m_watches (fst sp)"
  by (induction lits arbitrary: sp) (simp_all add: assert_lit_watches)

lemma assert_all_watches:
  "m_watches (fst (assert_all l lits sp)) = m_watches (fst sp)"
  by (induction lits arbitrary: sp) (simp_all add: assert_lit_watches)

lemma try_lit_watches:
  "try_lit l u (s, p) = (ok, s', p') \<Longrightarrow> m_watches s' = m_watches s"
proof -
  have a: "assert_implied l lits (s, p) = (s1, p1) \<Longrightarrow> m_watches s1 = m_watches s" for lits s1 p1
    using assert_implied_watches [of l lits "(s, p)"] by simp
  have b: "assert_all l lits (s0, p0) = (s1, p1) \<Longrightarrow> m_watches s1 = m_watches s0" for lits s0 p0 s1 p1
    using assert_all_watches [of l lits "(s0, p0)"] by simp
  have c: "cache_bins l n (s0, p0) = (s1, p1) \<Longrightarrow> m_watches s1 = m_watches s0" for n s0 p0 s1 p1
    using cache_bins_static [of l n s0 p0] by simp
  show "try_lit l u (s, p) = (ok, s', p') \<Longrightarrow> m_watches s' = m_watches s"
    unfolding try_lit_def
    by (auto simp: Let_def split: option.splits prod.splits if_splits dest!: a b c)
qed

subsection \<open>The variable processor\<close>

text \<open>
  The loop of \<open>process_core\<close> over the watch list of \<open>~l\<close>. The bound \<open>sz\<close> is read again
  from the watch list after every call of \<open>try_lit\<close>, as in the source; an index past
  the end of the list (never reached from \<open>process_core\<close>, where \<open>sz\<close> is the length of
  that list) ends the loop. The result is the state at the \<open>return\<close> or at the end of
  the loop.
\<close>

function process_binary ::
  "sat_literal \<Rightarrow> nat \<Rightarrow> nat \<Rightarrow> solver \<times> probing \<Rightarrow> solver \<times> probing" where
  "process_binary l i sz (s, p) =
     (if i < sz then
        (let wlist = get_wlist s (neg l) in
         if length wlist \<le> i then (s, p)
         else
           (let w = wlist ! i in
            if \<not> is_binary_clause w then process_binary l (i + 1) sz (s, p)
            else
              (let l2 = get_literal w in
               if index l > index l2 then process_binary l (i + 1) sz (s, p)
               else if lit_value s l2 \<noteq> l_undef then process_binary l (i + 1) sz (s, p)
               else
                 (case try_lit l2 False (s, p) of
                    (ok, s', p') \<Rightarrow>
                      if \<not> ok then (s', p')
                      else if inconsistent s' then (s', p')
                      else process_binary l (i + 1) (length (get_wlist s' (neg l))) (s', p')))))
      else (s, p))"
  by pat_completeness auto
termination
proof (relation "measure (\<lambda>(l, i, sz, s, p). max sz (length (m_watches s (neg l))) - i)",
    goal_cases)
  case 1
  show ?case by simp
next
  case 2
  then show ?case by auto
next
  case 3
  then show ?case by auto
next
  case 4
  then show ?case by auto
next
  case (5 l i sz s p wlist w l2 ok sp' s' p')
  then have "m_watches s' = m_watches s"
    using try_lit_watches [of l2 False s p ok s' p'] by simp
  with 5 show ?case
    by (auto simp: get_wlist_def)
qed

declare process_binary.simps [simp del]

definition process_core :: "bool_var \<Rightarrow> solver \<times> probing \<Rightarrow> solver \<times> probing" where
  "process_core v sp =
     (case sp of (s, p) \<Rightarrow>
        (let p1 = p\<lparr>m_counter := m_counter p - 1\<rparr>;
             s1 = push s;
             l = Lit v False;
             s2 = assign_scoped l s1;
             old_tr_sz = length (m_trail s2);
             s3 = propagate s2
         in if inconsistent s3 then
              (let s4 = drat_explain_conflict s3;
                   s5 = pop 1 s4;
                   s6 = assign_scoped (neg l) s5;
                   s7 = propagate s6
               in (s7, p1\<lparr>m_num_assigned := m_num_assigned p1 + 1\<rparr>))
            else
              (let p2 = p1\<lparr>m_assigned := set (drop old_tr_sz (m_trail s3))\<rparr>
               in case cache_bins l old_tr_sz (s3, p2) of
                    (s4, p3) \<Rightarrow>
                      (case try_lit (neg l) True (pop 1 s4, p3) of
                         (ok, s6, p4) \<Rightarrow>
                           if \<not> ok then (s6, p4)
                           else if m_probing_binary p4
                           then process_binary l 0 (length (get_wlist s6 (neg l))) (s6, p4)
                           else (s6, p4)))))"

definition process :: "bool_var \<Rightarrow> solver \<times> probing \<Rightarrow> solver \<times> probing" where
  "process v sp =
     (case sp of (s, p) \<Rightarrow>
        (let old_counter = m_counter p;
             old_num_assigned = m_num_assigned p
         in case process_core v (s, p) of
              (s', p') \<Rightarrow>
                if m_num_assigned p' > old_num_assigned
                then (s', p'\<lparr>m_counter := old_counter\<rparr>)
                else (s', p')))"

subsection \<open>The driver\<close>

definition finalize :: "probing \<Rightarrow> probing" where
  "finalize p = p\<lparr>m_assigned := {}, m_to_assert := [], m_cached_bins := []\<rparr>"

datatype outcome = Returned bool | Canceled

text \<open>
  The loop of \<open>operator()\<close> over \<open>i = 0, ..., num - 1\<close>. \<open>m_stopped_at + i\<close> is a sum of
  32-bit unsigned numbers. The loop ends with \<open>Returned False\<close> at the \<open>break\<close> on the
  budget, with \<open>Returned True\<close> at the \<open>break\<close> on inconsistency and at the end of the
  range (\<open>r\<close> is still \<open>true\<close>), and with \<open>Canceled\<close> when \<open>checkpoint\<close> throws.
\<close>

fun scan :: "int \<Rightarrow> nat \<Rightarrow> nat list \<Rightarrow> solver \<times> probing \<Rightarrow> outcome \<times> solver \<times> probing" where
  "scan limit num [] (s, p) = (Returned True, s, p)"
| "scan limit num (i # rest) (s, p) =
     (let v = ((m_stopped_at p + i) mod 2 ^ 32) mod num in
      if m_counter p < limit then (Returned False, s, p\<lparr>m_stopped_at := v\<rparr>)
      else if inconsistent s then (Returned True, s, p)
      else if var_value s v \<noteq> l_undef \<or> was_eliminated s v then
        scan limit num rest
          (s, if m_probing_cache p
              then reset_cache (Lit v True) (reset_cache (Lit v False) p)
              else p)
      else
        (case checkpoint s of
           None \<Rightarrow> (Canceled, s, p)
         | Some s1 \<Rightarrow> scan limit num rest (process v (s1, p))))"

text \<open>
  \<open>operator()(force)\<close>. \<open>elim\<close> stands for equivalence elimination (\<open>elim_eqs\<close> over the
  union-find of the pairs in \<open>m_equivs\<close>), which is not part of the sources at hand.
  \<open>m_big.init\<close> only serves \<open>implies\<close>, whose one use is compiled out, and the report
  object only prints; neither is modelled beyond the count the report remembers. The
  \<open>flet\<close> restores \<open>m_is_probing\<close> on every way out of the pass.
\<close>

definition run ::
  "((sat_literal \<times> sat_literal) list \<Rightarrow> solver \<Rightarrow> solver) \<Rightarrow> bool \<Rightarrow> solver \<times> probing
     \<Rightarrow> outcome \<times> solver \<times> probing" where
  "run elim force sp =
     (case sp of (s, p) \<Rightarrow>
        if \<not> m_probing p then (Returned True, s, p)
        else
          (let s1 = propagate s in
           if inconsistent s1 then (Returned True, s1, p)
           else if \<not> force \<and> m_counter p > 0 then (Returned True, s1, p)
           else
             (let p1 = (if m_probing_cache p \<and> m_allocation_size s1 > m_probing_cache_limit p
                        then p\<lparr>m_cached_bins := []\<rparr> else p);
                  old_is_probing = m_is_probing s1;
                  s2 = s1\<lparr>m_is_probing := True\<rparr>;
                  rpt_num_assigned = m_num_assigned p1;
                  p2 = p1\<lparr>m_counter := 0, m_equivs := []\<rparr>;
                  limit = - sint (m_probing_limit p2);
                  num = num_vars s2
              in case scan limit num [0..<num] (s2, p2) of
                   (Canceled, s3, p3) \<Rightarrow> (Canceled, s3\<lparr>m_is_probing := old_is_probing\<rparr>, p3)
                 | (Returned r, s3, p3) \<Rightarrow>
                     (let p4 = (if r then p3\<lparr>m_stopped_at := 0\<rparr> else p3);
                          p5 = p4\<lparr>m_counter := - m_counter p4\<rparr>;
                          p6 = (if rpt_num_assigned = m_num_assigned p5
                                then p5\<lparr>m_counter := m_counter p5 * 2\<rparr> else p5);
                          p7 = finalize p6;
                          s4 = (if m_equivs p7 \<noteq> [] then elim (m_equivs p7) s3 else s3)
                      in (Returned r, s4\<lparr>m_is_probing := old_is_probing\<rparr>, p7)))))"

text \<open>
  The parts of \<open>run\<close> by name: \<open>pass_runs\<close> holds when none of the three early returns
  is taken, \<open>pass_begin\<close> is the state in which the loop starts, \<open>pass_scan\<close> is the
  loop of that pass.
\<close>

definition pass_runs :: "bool \<Rightarrow> solver \<times> probing \<Rightarrow> bool" where
  "pass_runs force sp \<longleftrightarrow>
     m_probing (snd sp) \<and> \<not> inconsistent (propagate (fst sp)) \<and> (force \<or> m_counter (snd sp) \<le> 0)"

definition pass_begin :: "solver \<times> probing \<Rightarrow> solver \<times> probing" where
  "pass_begin sp =
     (case sp of (s, p) \<Rightarrow>
        ((propagate s)\<lparr>m_is_probing := True\<rparr>,
         (if m_probing_cache p \<and> m_allocation_size (propagate s) > m_probing_cache_limit p
          then p\<lparr>m_cached_bins := []\<rparr> else p)\<lparr>m_counter := 0, m_equivs := []\<rparr>))"

definition pass_scan :: "solver \<times> probing \<Rightarrow> outcome \<times> solver \<times> probing" where
  "pass_scan sp =
     scan (- sint (m_probing_limit (snd sp))) (num_vars (fst sp)) [0..<num_vars (fst sp)] (pass_begin sp)"

text \<open>
  The scan as the specification words it: the variables are visited in a given order,
  which for the driver is the round-robin order from the resume cursor.
\<close>

definition visit_order :: "nat \<Rightarrow> nat \<Rightarrow> bool_var list" where
  "visit_order start num = map (\<lambda>i. (start + i) mod num) [0..<num]"

fun scan_vars :: "int \<Rightarrow> bool_var list \<Rightarrow> solver \<times> probing \<Rightarrow> outcome \<times> solver \<times> probing" where
  "scan_vars limit [] (s, p) = (Returned True, s, p)"
| "scan_vars limit (v # vs) (s, p) =
     (if m_counter p < limit then (Returned False, s, p\<lparr>m_stopped_at := v\<rparr>)
      else if inconsistent s then (Returned True, s, p)
      else if var_value s v \<noteq> l_undef \<or> was_eliminated s v then
        scan_vars limit vs
          (s, if m_probing_cache p
              then reset_cache (Lit v True) (reset_cache (Lit v False) p)
              else p)
      else
        (case checkpoint s of
           None \<Rightarrow> (Canceled, s, p)
         | Some s1 \<Rightarrow> scan_vars limit vs (process v (s1, p))))"

subsection \<open>Initial states\<close>

text \<open>
  A solver over a clause set with nothing assigned and no scope open, and the probing
  object as its constructor leaves it (\<open>m_stopped_at = 0\<close>, \<open>m_counter = 0\<close>, statistics
  reset), with the parameters that \<open>updt_params\<close> reads.
\<close>

definition mk_solver ::
  "sat_literal list list \<Rightarrow> (sat_literal \<Rightarrow> watched list) \<Rightarrow> nat \<Rightarrow> solver" where
  "mk_solver cs ws n =
     \<lparr>m_clauses = cs, m_watches = ws, m_num_vars = n, m_eliminated = {}, m_trail = [],
      m_scopes = [], m_inconsistent = False, m_is_probing = False, m_drat_enabled = False,
      m_drat = [], m_rlimit = None, m_allocation_size = 0\<rparr>"

definition mk_probing :: "32 word \<Rightarrow> bool \<Rightarrow> bool \<Rightarrow> probing" where
  "mk_probing lim cache bin =
     \<lparr>m_stopped_at = 0, m_assigned = {}, m_to_assert = [], m_probing = True,
      m_probing_limit = lim, m_probing_cache = cache, m_probing_binary = bin,
      m_probing_cache_limit = 1000, m_counter = 0, m_num_assigned = 0, m_equivs = [],
      m_cached_bins = []\<rparr>"

text \<open>
  The watch lists of a clause set, as unit propagation needs them: the list of \<open>l\<close> has
  one entry for every clause in which \<open>~l\<close> occurs, with the other literal when the
  clause is binary.
\<close>

definition watches_of :: "sat_literal list list \<Rightarrow> sat_literal \<Rightarrow> watched list" where
  "watches_of cs l =
     concat (map (\<lambda>c. if neg l \<in> set c
                       then (case filter (\<lambda>x. x \<noteq> neg l) c of
                               [] \<Rightarrow> []
                             | [y] \<Rightarrow> [Watched True y]
                             | y # _ \<Rightarrow> [Watched False y])
                       else []) cs)"

subsection \<open>Frames\<close>

text \<open>
  What a probing procedure never changes in the solver (the trail may only grow; the
  inconsistency flag and the proof log are free), and the configuration and cursor of
  the probing object.
\<close>

definition solver_frame :: "solver \<Rightarrow> solver \<Rightarrow> bool" where
  "solver_frame s s' \<longleftrightarrow>
     m_clauses s' = m_clauses s \<and> m_watches s' = m_watches s \<and> m_num_vars s' = m_num_vars s
     \<and> m_eliminated s' = m_eliminated s \<and> m_scopes s' = m_scopes s
     \<and> m_is_probing s' = m_is_probing s \<and> m_drat_enabled s' = m_drat_enabled s
     \<and> m_allocation_size s' = m_allocation_size s
     \<and> take (length (m_trail s)) (m_trail s') = m_trail s"

definition config_frame :: "probing \<Rightarrow> probing \<Rightarrow> bool" where
  "config_frame p p' \<longleftrightarrow>
     m_stopped_at p' = m_stopped_at p \<and> m_probing p' = m_probing p
     \<and> m_probing_limit p' = m_probing_limit p \<and> m_probing_cache p' = m_probing_cache p
     \<and> m_probing_binary p' = m_probing_binary p
     \<and> m_probing_cache_limit p' = m_probing_cache_limit p \<and> m_equivs p' = m_equivs p"

definition frame :: "solver \<times> probing \<Rightarrow> solver \<times> probing \<Rightarrow> bool" where
  "frame sp sp' \<longleftrightarrow> solver_frame (fst sp) (fst sp') \<and> config_frame (snd sp) (snd sp')"

subsection \<open>Example formulas\<close>

text \<open>Over \<open>x0\<close> and \<open>x1\<close>: \<open>\<not>x0 \<or> x1\<close> and \<open>\<not>x0 \<or> \<not>x1\<close>. Assuming \<open>x0\<close> true fails.\<close>

definition cs_fail :: "sat_literal list list" where
  "cs_fail = [[Lit 0 True, Lit 1 False], [Lit 0 True, Lit 1 True]]"

text \<open>Over \<open>x0\<close> and \<open>x1\<close>: \<open>x0 \<or> x1\<close> and \<open>x0 \<or> \<not>x1\<close>. Assuming \<open>x0\<close> false fails.\<close>

definition cs_neg_fail :: "sat_literal list list" where
  "cs_neg_fail = [[Lit 0 False, Lit 1 False], [Lit 0 False, Lit 1 True]]"

text \<open>
  A state on the cache-hit path: proof logging on, an entry for \<open>x1\<close> that lists \<open>x2\<close> and
  \<open>x3\<close>, and \<open>x3\<close>, \<open>x4\<close> collected under the complementary probe.
\<close>

definition hit_solver :: solver where
  "hit_solver = (mk_solver [] (\<lambda>l. []) 5)\<lparr>m_drat_enabled := True\<rparr>"

definition hit_probing :: probing where
  "hit_probing = (mk_probing 100 True True)
     \<lparr>m_assigned := {Lit 3 False, Lit 4 False},
      m_cached_bins :=
        [\<lparr>m_available = False, m_lits = []\<rparr>, \<lparr>m_available = False, m_lits = []\<rparr>,
         \<lparr>m_available = True, m_lits = [Lit 2 False, Lit 3 False]\<rparr>]\<rparr>"

text \<open>The empty clause, and a probing object whose cursor is at \<open>x1\<close> with a budget of one unit.\<close>

definition cs_empty_clause :: "sat_literal list list" where
  "cs_empty_clause = [[]]"

definition cursor_probing :: probing where
  "cursor_probing = (mk_probing 1 False False)\<lparr>m_stopped_at := 1\<rparr>"

text \<open>
  Over \<open>x0, ..., x3\<close>: \<open>x0 \<or> x3\<close>, \<open>\<not>x1 \<or> x2\<close>, \<open>\<not>x1 \<or> \<not>x2\<close>; and a probing object with
  binary-neighbour probing on, a budget of four units and the cursor at \<open>x3\<close>, as an
  interrupted pass leaves it.
\<close>

definition cs_budget :: "sat_literal list list" where
  "cs_budget = [[Lit 0 False, Lit 3 False], [Lit 1 True, Lit 2 False], [Lit 1 True, Lit 2 True]]"

definition budget_probing :: "bool \<Rightarrow> probing" where
  "budget_probing cache = (mk_probing 4 cache True)\<lparr>m_stopped_at := 3\<rparr>"

subsection \<open>Proof-log lines of asserted literals\<close>

text \<open>The lines that the two asserting loops of \<open>try_lit\<close> write for a list of literals.\<close>

definition drat_lines :: "sat_literal \<Rightarrow> sat_literal list \<Rightarrow> drat_entry list" where
  "drat_lines l lits = concat (map (\<lambda>lit. [Drat_add l lit, Drat_add (neg l) lit]) lits)"

subsection \<open>Forgetting the proof log and the cache\<close>

text \<open>\<open>unlog\<close> empties the proof log of a solver, \<open>uncache\<close> disables and empties the cache.\<close>

definition unlog :: "solver \<Rightarrow> solver" where
  "unlog s = s\<lparr>m_drat := []\<rparr>"

definition uncache :: "probing \<Rightarrow> probing" where
  "uncache p = p\<lparr>m_probing_cache := False, m_cached_bins := []\<rparr>"

subsection \<open>States without repetition\<close>

text \<open>
  No literal is twice on the trail, and no stored cache entry lists a literal twice.
\<close>

definition no_repetition :: "solver \<times> probing \<Rightarrow> bool" where
  "no_repetition sp \<longleftrightarrow>
     distinct (m_trail (fst sp)) \<and> list_all (\<lambda>e. distinct (m_lits e)) (m_cached_bins (snd sp))"

subsection \<open>Cache entries over a pass\<close>

text \<open>
  The entry at an index of the cache vector is there and marked available. Index \<open>i\<close>
  belongs to the variable \<open>i div 2\<close>.
\<close>

definition entry_available :: "probing \<Rightarrow> nat \<Rightarrow> bool" where
  "entry_available p i \<longleftrightarrow> i < length (m_cached_bins p) \<and> m_available (m_cached_bins p ! i)"

text \<open>
  Two variables, no clause, and an external limit that lets one checkpoint pass and cancels
  at the second; and a probing object that already holds an available entry for \<open>x0\<close>.
\<close>

definition cancel_solver :: solver where
  "cancel_solver = (mk_solver [] (\<lambda>l. []) 2)\<lparr>m_rlimit := Some 1\<rparr>"

definition kept_probing :: probing where
  "kept_probing = (mk_probing 100 True False)
     \<lparr>m_cached_bins := [\<lparr>m_available = True, m_lits = []\<rparr>]\<rparr>"

subsection \<open>Unit propagation as a closure\<close>

text \<open>
  The literals that unit propagation derives from a set \<open>A\<close> of literals over the clause
  set \<open>C\<close>: those of \<open>A\<close>, and every literal of a clause whose other literals are all
  false. A clause is falsified by a set of literals that makes all its literals false.
\<close>

inductive_set unit_implied :: "sat_literal list list \<Rightarrow> sat_literal set \<Rightarrow> sat_literal set"
  for C :: "sat_literal list list" and A :: "sat_literal set" where
  given: "x \<in> A \<Longrightarrow> x \<in> unit_implied C A"
| unit: "c \<in> set C \<Longrightarrow> x \<in> set c \<Longrightarrow> (\<forall>y \<in> set c. y \<noteq> x \<longrightarrow> neg y \<in> unit_implied C A)
          \<Longrightarrow> x \<in> unit_implied C A"

definition falsified :: "sat_literal list list \<Rightarrow> sat_literal set \<Rightarrow> bool" where
  "falsified C T \<longleftrightarrow> (\<exists>c \<in> set C. \<forall>y \<in> set c. neg y \<in> T)"

subsection \<open>Well-formed states of the solver and of the cache\<close>

text \<open>
  What the data structures of a solver and of the probing object satisfy in every state
  that is reached from an initial one. No literal is on the trail together with its
  complement. A binary entry in the watch list of \<open>l\<close> stands for a clause of the clause
  set that consists of \<open>~l\<close> and the watched literal. An available cache entry lists
  only literals that unit propagation derives from its literal (\<open>lit_at i\<close> is the
  literal with index \<open>i\<close>) and the trail; the empty cache is an instance.
\<close>

definition trail_ok :: "solver \<Rightarrow> bool" where
  "trail_ok s \<longleftrightarrow> (\<forall>x \<in> set (m_trail s). neg x \<notin> set (m_trail s))"

definition watch_sound :: "solver \<Rightarrow> bool" where
  "watch_sound s \<longleftrightarrow>
     (\<forall>l. \<forall>w \<in> set (m_watches s l). is_binary_clause w
        \<longrightarrow> (\<exists>c \<in> set (m_clauses s). neg l \<in> set c \<and> get_literal w \<in> set c
               \<and> set c \<subseteq> {neg l, get_literal w}))"

definition lit_at :: "nat \<Rightarrow> sat_literal" where
  "lit_at i = Lit (i div 2) (odd i)"

definition cache_sound :: "sat_literal list list \<Rightarrow> sat_literal set \<Rightarrow> cache_entry list \<Rightarrow> bool" where
  "cache_sound C T bins \<longleftrightarrow>
     (\<forall>i < length bins. m_available (bins ! i)
        \<longrightarrow> set (m_lits (bins ! i)) \<subseteq> unit_implied C (insert (lit_at i) T))"

definition cache_ok :: "solver \<times> probing \<Rightarrow> bool" where
  "cache_ok sp \<longleftrightarrow>
     cache_sound (m_clauses (fst sp)) (set (m_trail (fst sp))) (m_cached_bins (snd sp))"

definition probing_inv :: "solver \<times> probing \<Rightarrow> bool" where
  "probing_inv sp \<longleftrightarrow> trail_ok (fst sp) \<and> watch_sound (fst sp) \<and> cache_ok sp"

text \<open>
  The state in which the loop of \<open>process_core\<close> over the binary neighbours of \<open>l\<close> runs
  after the two probes of the variable have passed: the solver is consistent and
  stable under propagation, and there is a set \<open>N\<close> of literals (those that the
  complementary probe derived) that holds the trail and the neighbours, is closed under
  unit propagation and falsifies no clause, and whose literals in \<open>m_assigned\<close> are
  already on the trail.
\<close>

definition neutral_state :: "sat_literal set \<Rightarrow> sat_literal \<Rightarrow> solver \<times> probing \<Rightarrow> bool" where
  "neutral_state N l sp \<longleftrightarrow>
     (case sp of (s, p) \<Rightarrow>
        trail_ok s \<and> \<not> m_inconsistent s \<and> propagate_round s = s
        \<and> set (m_trail s) \<subseteq> N \<and> unit_implied (m_clauses s) N \<subseteq> N
        \<and> \<not> falsified (m_clauses s) N
        \<and> m_assigned p \<inter> N \<subseteq> set (m_trail s)
        \<and> cache_sound (m_clauses s) (set (m_trail s)) (m_cached_bins p)
        \<and> (\<forall>w \<in> set (m_watches s (neg l)). is_binary_clause w \<longrightarrow> get_literal w \<in> N))"

text \<open>
  The solver that a real probe of \<open>try_lit\<close> leaves when \<open>m_assigned\<close> is \<open>A\<close>, and the
  solver that the two probes of \<open>process_core\<close> leave, both without the proof log and
  without the bookkeeping of the probing object.
\<close>

definition probe_solver :: "sat_literal \<Rightarrow> sat_literal set \<Rightarrow> solver \<Rightarrow> solver" where
  "probe_solver l A s =
     (let s2 = assign_scoped l (push s);
          s3 = propagate s2
      in if inconsistent s3 then propagate (assign_scoped (neg l) (pop 1 s3))
         else propagate (fold assign_scoped
                (filter (\<lambda>lit. lit \<in> A) (drop (length (m_trail s2)) (m_trail s3))) (pop 1 s3)))"

definition process_solver :: "bool_var \<Rightarrow> solver \<Rightarrow> solver" where
  "process_solver v s =
     (let l = Lit v False;
          s2 = assign_scoped l (push s);
          s3 = propagate s2
      in if inconsistent s3 then propagate (assign_scoped (neg l) (pop 1 s3))
         else probe_solver (neg l) (set (drop (length (m_trail s2)) (m_trail s3))) (pop 1 s3))"


section \<open>Properties\<close>

subsection \<open>Scopes, trail and frames of the prober\<close>

lemma assign_scoped_undef:
  "lit_value s l = l_undef \<Longrightarrow> assign_scoped l s = s\<lparr>m_trail := m_trail s @ [l]\<rparr>"
  by (simp add: assign_scoped_def)

lemma probe_scopes:
  "m_scopes (propagate (assign_scoped l (push s))) = length (m_trail s) # m_scopes s"
  by simp

lemma probe_trail:
  "\<exists>us. m_trail (propagate (assign_scoped l (push s))) = m_trail s @ us"
proof -
  obtain us where "m_trail (assign_scoped l (push s)) = m_trail s @ us"
    using assign_scoped_trail [of l "push s"] by auto
  moreover obtain vs where
    "m_trail (propagate (assign_scoped l (push s))) = m_trail (assign_scoped l (push s)) @ vs"
    using propagate_trail by blast
  ultimately show ?thesis by simp
qed

lemma pop_closes:
  assumes "m_scopes s3 = length (m_trail s) # m_scopes s" and "m_trail s3 = m_trail s @ us"
  shows "m_trail (pop 1 s3) = m_trail s" and "m_scopes (pop 1 s3) = m_scopes s"
    and "m_inconsistent (pop 1 s3) = False"
  using assms by (simp_all add: pop.simps)

lemma assert_lit_solver_frame:
  "assert_lit l lit (s, p) = (s', p') \<Longrightarrow>
     m_clauses s' = m_clauses s \<and> m_watches s' = m_watches s \<and> m_num_vars s' = m_num_vars s
     \<and> m_eliminated s' = m_eliminated s \<and> m_scopes s' = m_scopes s
     \<and> m_is_probing s' = m_is_probing s \<and> m_drat_enabled s' = m_drat_enabled s
     \<and> m_rlimit s' = m_rlimit s \<and> m_allocation_size s' = m_allocation_size s
     \<and> p' = p\<lparr>m_num_assigned := m_num_assigned p + 1\<rparr>"
  by (cases "m_drat_enabled s") (auto simp: assert_lit_def)

lemma assert_all_solver_frame:
  "assert_all l lits (s, p) = (s', p') \<Longrightarrow>
     m_clauses s' = m_clauses s \<and> m_watches s' = m_watches s \<and> m_num_vars s' = m_num_vars s
     \<and> m_eliminated s' = m_eliminated s \<and> m_scopes s' = m_scopes s
     \<and> m_is_probing s' = m_is_probing s \<and> m_drat_enabled s' = m_drat_enabled s
     \<and> m_rlimit s' = m_rlimit s \<and> m_allocation_size s' = m_allocation_size s
     \<and> p' = p\<lparr>m_num_assigned := m_num_assigned p + of_nat (length lits)\<rparr>"
proof (induction lits arbitrary: s p)
  case Nil
  then show ?case by simp
next
  case (Cons lit lits)
  obtain s1 p1 where 1: "assert_lit l lit (s, p) = (s1, p1)"
    by (cases "assert_lit l lit (s, p)") auto
  with Cons.prems have 2: "assert_all l lits (s1, p1) = (s', p')"
    by simp
  show ?case
    using assert_lit_solver_frame [OF 1] Cons.IH [OF 2] by (simp add: algebra_simps)
qed

lemma assert_implied_filter:
  "assert_implied l lits (s, p) = assert_all l (filter (\<lambda>lit. lit \<in> m_assigned p) lits) (s, p)"
proof (induction lits arbitrary: s p)
  case Nil
  then show ?case by simp
next
  case (Cons lit lits)
  obtain s1 p1 where 1: "assert_lit l lit (s, p) = (s1, p1)"
    by (cases "assert_lit l lit (s, p)") auto
  then have "m_assigned p1 = m_assigned p"
    using assert_lit_solver_frame [OF 1] by simp
  then show ?case
    using Cons.IH [of s1 p1] Cons.IH [of s p] 1 by simp
qed

text \<open>The three ways through \<open>try_lit\<close>: the cache hit, the failed probe, the probe without conflict.\<close>

lemma try_lit_hit:
  assumes "cached_implied_lits p l = Some lits"
  shows "try_lit l False (s, p) =
    (case assert_all l (filter (\<lambda>lit. lit \<in> m_assigned p) lits) (s, p) of
       (s1, p1) \<Rightarrow> (\<not> inconsistent (propagate s1), propagate s1, p1))"
  using assms by (simp add: try_lit_def assert_implied_filter Let_def split: prod.splits)

lemma try_lit_conflict:
  assumes "u \<or> cached_implied_lits p l = None"
    and "inconsistent (propagate (assign_scoped l (push s)))"
  shows "try_lit l u (s, p) =
    (False,
     propagate (assign_scoped (neg l)
       (pop 1 (drat_explain_conflict (propagate (assign_scoped l (push s)))))),
     p\<lparr>m_to_assert := [], m_counter := m_counter p - 1\<rparr>)"
  using assms by (auto simp: try_lit_def Let_def)

lemma try_lit_no_conflict:
  assumes "u \<or> cached_implied_lits p l = None"
    and "\<not> inconsistent (propagate (assign_scoped l (push s)))"
  shows "try_lit l u (s, p) =
    (let s3 = propagate (assign_scoped l (push s));
         old_tr_sz = length (m_trail (assign_scoped l (push s)));
         p3 = p\<lparr>m_counter := m_counter p - 1,
                m_to_assert := filter (\<lambda>lit. lit \<in> m_assigned p) (drop old_tr_sz (m_trail s3))\<rparr>
     in case (if u then cache_bins l old_tr_sz (s3, p3) else (s3, p3)) of
          (s4, p4) \<Rightarrow>
            (case assert_all l (m_to_assert p4) (pop 1 s4, p4) of
               (s6, p6) \<Rightarrow> (\<not> inconsistent (propagate s6), propagate s6, p6)))"
proof -
  from assms(1) have "(if u then None else cached_implied_lits p l) = None"
    by auto
  then show ?thesis
    using assms(2) by (simp add: try_lit_def Let_def)
qed

lemma try_lit_cases:
  obtains (hit) lits where "\<not> u" "cached_implied_lits p l = Some lits"
  | (conflict) "u \<or> cached_implied_lits p l = None"
      "inconsistent (propagate (assign_scoped l (push s)))"
  | (no_conflict) "u \<or> cached_implied_lits p l = None"
      "\<not> inconsistent (propagate (assign_scoped l (push s)))"
  by (cases u; cases "cached_implied_lits p l"; auto)

lemma cache_bins_probing_frame:
  "cache_bins l n (s, p) = (s', p') \<Longrightarrow> \<exists>bins. p' = p\<lparr>m_cached_bins := bins\<rparr>"
  by (auto simp: cache_bins_def Let_def split: if_splits intro: exI [of _ "m_cached_bins p"])

lemma try_lit_scopes:
  "try_lit l u (s, p) = (ok, s', p') \<Longrightarrow> m_scopes s' = m_scopes s"
proof (cases rule: try_lit_cases [where u = u and p = p and l = l and s = s])
  case (hit lits)
  assume r: "try_lit l u (s, p) = (ok, s', p')"
  obtain s1 p1 where 1: "assert_all l (filter (\<lambda>lit. lit \<in> m_assigned p) lits) (s, p) = (s1, p1)"
    by (cases "assert_all l (filter (\<lambda>lit. lit \<in> m_assigned p) lits) (s, p)") auto
  from hit r 1 have "s' = propagate s1"
    by (simp add: try_lit_hit)
  then show ?thesis
    using assert_all_solver_frame [OF 1] by simp
next
  case conflict
  assume r: "try_lit l u (s, p) = (ok, s', p')"
  obtain us where us: "m_trail (propagate (assign_scoped l (push s))) = m_trail s @ us"
    using probe_trail by blast
  have "m_scopes (pop 1 (drat_explain_conflict (propagate (assign_scoped l (push s))))) = m_scopes s"
    by (rule pop_closes(2) [where us = us]) (simp_all add: us)
  with conflict r show ?thesis
    by (auto simp: try_lit_conflict)
next
  case no_conflict
  assume r: "try_lit l u (s, p) = (ok, s', p')"
  let ?s3 = "propagate (assign_scoped l (push s))"
  let ?n = "length (m_trail (assign_scoped l (push s)))"
  let ?p3 = "p\<lparr>m_counter := m_counter p - 1,
                m_to_assert := filter (\<lambda>lit. lit \<in> m_assigned p) (drop ?n (m_trail ?s3))\<rparr>"
  obtain s4 p4 where 4: "(if u then cache_bins l ?n (?s3, ?p3) else (?s3, ?p3)) = (s4, p4)"
    by (cases "if u then cache_bins l ?n (?s3, ?p3) else (?s3, ?p3)") auto
  obtain s6 p6 where 6: "assert_all l (m_to_assert p4) (pop 1 s4, p4) = (s6, p6)"
    by (cases "assert_all l (m_to_assert p4) (pop 1 s4, p4)") auto
  obtain us where us: "m_trail ?s3 = m_trail s @ us"
    using probe_trail by blast
  have s4: "m_trail s4 = m_trail ?s3 \<and> m_scopes s4 = m_scopes ?s3"
    using 4 cache_bins_static [of l ?n ?s3 ?p3 s4 p4] by (auto split: if_splits)
  have "m_scopes (pop 1 s4) = m_scopes s"
    by (rule pop_closes(2) [where us = us]) (simp_all add: us s4)
  moreover from no_conflict r 4 6 have "s' = propagate s6"
    by (simp add: try_lit_no_conflict Let_def)
  ultimately show ?thesis
    using assert_all_solver_frame [OF 6] by simp
qed

lemma solver_frame_refl [simp]: "solver_frame s s"
  by (simp add: solver_frame_def)

lemma take_prefix_trans:
  assumes "take (length xs) ys = xs" and "take (length ys) zs = ys"
  shows "take (length xs) zs = xs"
proof -
  have "length (take (length xs) ys) = length xs"
    using assms(1) by simp
  then have "length xs \<le> length ys"
    by simp
  then have "take (length xs) zs = take (length xs) (take (length ys) zs)"
    by (simp add: min_def)
  then show ?thesis
    using assms by simp
qed

lemma solver_frame_trans:
  "solver_frame s s' \<Longrightarrow> solver_frame s' s'' \<Longrightarrow> solver_frame s s''"
  unfolding solver_frame_def using take_prefix_trans [of "m_trail s" "m_trail s'" "m_trail s''"]
  by simp

lemma config_frame_refl [simp]: "config_frame p p"
  by (simp add: config_frame_def)

lemma config_frame_trans:
  "config_frame p p' \<Longrightarrow> config_frame p' p'' \<Longrightarrow> config_frame p p''"
  by (simp add: config_frame_def)

lemma solver_frame_propagate: "solver_frame s (propagate s)"
  using propagate_trail [of s] by (auto simp: solver_frame_def)

lemma solver_frame_assign_scoped: "solver_frame s (assign_scoped l s)"
  using assign_scoped_trail [of l s] by (auto simp: solver_frame_def)

lemma solver_frame_assert_lit:
  "assert_lit l lit (s, p) = (s', p') \<Longrightarrow> solver_frame s s'"
  using assign_scoped_trail [of lit "s\<lparr>m_drat := m_drat s @ [Drat_add l lit, Drat_add (neg l) lit]\<rparr>"]
    assign_scoped_trail [of lit s]
  by (cases "m_drat_enabled s") (auto simp: assert_lit_def solver_frame_def)

lemma solver_frame_assert_all:
  "assert_all l lits (s, p) = (s', p') \<Longrightarrow> solver_frame s s'"
proof (induction lits arbitrary: s p)
  case Nil
  then show ?case by simp
next
  case (Cons lit lits)
  obtain s1 p1 where 1: "assert_lit l lit (s, p) = (s1, p1)"
    by (cases "assert_lit l lit (s, p)") auto
  with Cons.prems have 2: "assert_all l lits (s1, p1) = (s', p')"
    by simp
  show ?case
    using solver_frame_assert_lit [OF 1] Cons.IH [OF 2] by (rule solver_frame_trans)
qed

text \<open>Closing the scope of a probe gives back the solver before the probe but for the log.\<close>

lemma solver_frame_pop_probe:
  assumes "m_scopes s3 = length (m_trail s) # m_scopes s"
    and "take (length (m_trail s)) (m_trail s3) = m_trail s"
    and "m_clauses s3 = m_clauses s" "m_watches s3 = m_watches s" "m_num_vars s3 = m_num_vars s"
    and "m_eliminated s3 = m_eliminated s" "m_is_probing s3 = m_is_probing s"
    and "m_drat_enabled s3 = m_drat_enabled s" "m_allocation_size s3 = m_allocation_size s"
  shows "solver_frame s (pop 1 s3)" and "m_trail (pop 1 s3) = m_trail s"
    and "\<not> m_inconsistent (pop 1 s3)"
  using assms by (simp_all add: solver_frame_def pop.simps)

lemma probe_prefix:
  "take (length (m_trail s)) (m_trail (propagate (assign_scoped l (push s)))) = m_trail s"
  using probe_trail [of l s] by auto

lemma try_lit_frame:
  assumes "try_lit l u (s, p) = (ok, s', p')"
  shows "solver_frame s s'" and "config_frame p p'" and "m_assigned p' = m_assigned p"
proof -
  have "solver_frame s s' \<and> config_frame p p' \<and> m_assigned p' = m_assigned p"
  proof (cases rule: try_lit_cases [where u = u and p = p and l = l and s = s])
    case (hit lits)
    obtain s1 p1 where 1: "assert_all l (filter (\<lambda>lit. lit \<in> m_assigned p) lits) (s, p) = (s1, p1)"
      by (cases "assert_all l (filter (\<lambda>lit. lit \<in> m_assigned p) lits) (s, p)") auto
    from hit assms 1 have "s' = propagate s1" "p' = p1"
      by (simp_all add: try_lit_hit)
    then show ?thesis
      using assert_all_solver_frame [OF 1] solver_frame_assert_all [OF 1]
        solver_frame_trans [OF _ solver_frame_propagate]
      by (simp add: config_frame_def)
  next
    case conflict
    let ?s3 = "drat_explain_conflict (propagate (assign_scoped l (push s)))"
    have "solver_frame s (pop 1 ?s3)"
      by (rule solver_frame_pop_probe) (simp_all add: probe_prefix)
    then have "solver_frame s (propagate (assign_scoped (neg l) (pop 1 ?s3)))"
      using solver_frame_trans solver_frame_assign_scoped solver_frame_propagate by blast
    with conflict assms show ?thesis
      by (auto simp: try_lit_conflict config_frame_def)
  next
    case no_conflict
    let ?s3 = "propagate (assign_scoped l (push s))"
    let ?n = "length (m_trail (assign_scoped l (push s)))"
    let ?p3 = "p\<lparr>m_counter := m_counter p - 1,
                  m_to_assert := filter (\<lambda>lit. lit \<in> m_assigned p) (drop ?n (m_trail ?s3))\<rparr>"
    obtain s4 p4 where 4: "(if u then cache_bins l ?n (?s3, ?p3) else (?s3, ?p3)) = (s4, p4)"
      by (cases "if u then cache_bins l ?n (?s3, ?p3) else (?s3, ?p3)") auto
    obtain s6 p6 where 6: "assert_all l (m_to_assert p4) (pop 1 s4, p4) = (s6, p6)"
      by (cases "assert_all l (m_to_assert p4) (pop 1 s4, p4)") auto
    have s4: "m_trail s4 = m_trail ?s3 \<and> m_scopes s4 = m_scopes ?s3
        \<and> m_clauses s4 = m_clauses ?s3 \<and> m_watches s4 = m_watches ?s3
        \<and> m_num_vars s4 = m_num_vars ?s3 \<and> m_eliminated s4 = m_eliminated ?s3
        \<and> m_is_probing s4 = m_is_probing ?s3 \<and> m_drat_enabled s4 = m_drat_enabled ?s3
        \<and> m_allocation_size s4 = m_allocation_size ?s3"
      using 4 cache_bins_static [of l ?n ?s3 ?p3 s4 p4] by (auto split: if_splits)
    have p4: "\<exists>bins. p4 = ?p3\<lparr>m_cached_bins := bins\<rparr>"
      using 4 cache_bins_probing_frame [of l ?n ?s3 ?p3 s4 p4]
      by (cases u) (auto intro: exI [of _ "m_cached_bins p"])
    have "solver_frame s (pop 1 s4)"
      by (rule solver_frame_pop_probe) (simp_all add: s4 probe_prefix)
    then have "solver_frame s (propagate s6)"
      using solver_frame_trans solver_frame_assert_all [OF 6] solver_frame_propagate by blast
    moreover from no_conflict assms 4 6 have "s' = propagate s6" "p' = p6"
      by (simp_all add: try_lit_no_conflict Let_def)
    ultimately show ?thesis
      using assert_all_solver_frame [OF 6] p4 by (auto simp: config_frame_def)
  qed
  then show "solver_frame s s'" and "config_frame p p'" and "m_assigned p' = m_assigned p"
    by simp_all
qed

lemma process_binary_rel:
  assumes R_step: "\<And>l2 s p ok s' p'. try_lit l2 False (s, p) = (ok, s', p') \<Longrightarrow> R (s, p) (s', p')"
    and R_refl: "\<And>x. R x x"
    and R_trans: "\<And>x y z. R x y \<Longrightarrow> R y z \<Longrightarrow> R x z"
  shows "R sp (process_binary l i sz sp)"
proof (induction l i sz sp rule: process_binary.induct)
  case (1 l i sz s p)
  show ?case
  proof (cases "i < sz \<and> i < length (get_wlist s (neg l))")
    case False
    then show ?thesis
      by (subst process_binary.simps) (auto simp: R_refl Let_def)
  next
    case in_range: True
    let ?w = "get_wlist s (neg l) ! i"
    let ?l2 = "get_literal ?w"
    show ?thesis
    proof (cases "\<not> is_binary_clause ?w \<or> index l > index ?l2 \<or> lit_value s ?l2 \<noteq> l_undef")
      case True
      then have "process_binary l i sz (s, p) = process_binary l (i + 1) sz (s, p)"
        using in_range by (subst process_binary.simps) (auto simp: Let_def)
      moreover have "R (s, p) (process_binary l (i + 1) sz (s, p))"
        using True in_range "1.IH"(1-3)
        by (cases "is_binary_clause ?w"; cases "index l > index ?l2"; auto simp: Let_def)
      ultimately show ?thesis by simp
    next
      case False
      obtain ok s' p' where t: "try_lit ?l2 False (s, p) = (ok, s', p')"
        by (cases "try_lit ?l2 False (s, p)") auto
      show ?thesis
      proof (cases "ok \<and> \<not> inconsistent s'")
        case True
        then have "process_binary l i sz (s, p)
            = process_binary l (i + 1) (length (get_wlist s' (neg l))) (s', p')"
          using in_range False t by (subst process_binary.simps) (auto simp: Let_def)
        moreover have "R (s', p') (process_binary l (i + 1) (length (get_wlist s' (neg l))) (s', p'))"
          using True in_range False t
            "1.IH"(4) [of "get_wlist s (neg l)" ?w ?l2 ok "(s', p')" s' p']
          by (auto simp: Let_def)
        ultimately show ?thesis
          using R_step [OF t] R_trans by metis
      next
        case stop: False
        then have "process_binary l i sz (s, p) = (s', p')"
          using in_range False t by (subst process_binary.simps) (auto simp: Let_def)
        then show ?thesis
          using R_step [OF t] by simp
      qed
    qed
  qed
qed

subsection \<open>The cache stays inside its vector\<close>

lemma vec_reserve_length: "length (vec_reserve n xs) = max n (length xs)"
  by (simp add: vec_reserve_def)

text \<open>
  C10. The cache operations never index \<open>m_cached_bins\<close> outside its size: the checked
  \<open>reset_cache\<close> and \<open>cache_bins\<close>, in which such an access would be \<open>None\<close>, always
  return, with the result of the plain operation. \<open>reset_cache\<close> of a literal whose
  index is at or past the size of the vector changes nothing and never changes the
  size; \<open>cache_bins\<close> reserves \<open>index + 1\<close> entries before it writes, so that after a
  write the vector covers the index and the entry of the literal holds the trail
  fragment.
\<close>

theorem cache_operations_in_bounds:
  "reset_cache_checked l p = Some (reset_cache l p)
   \<and> (length (m_cached_bins p) \<le> index l \<longrightarrow> reset_cache l p = p)
   \<and> length (m_cached_bins (reset_cache l p)) = length (m_cached_bins p)
   \<and> index l < length (vec_reserve (index l + 1) (m_cached_bins p))
   \<and> cache_bins_checked l old_tr_sz (s, p) = Some (cache_bins l old_tr_sz (s, p))
   \<and> (m_probing_cache p \<and> m_allocation_size s \<le> m_probing_cache_limit p \<longrightarrow>
        length (m_cached_bins (snd (cache_bins l old_tr_sz (s, p))))
          = max (index l + 1) (length (m_cached_bins p))
        \<and> m_cached_bins (snd (cache_bins l old_tr_sz (s, p))) ! index l
          = \<lparr>m_available = True, m_lits = drop old_tr_sz (m_trail s)\<rparr>)"
proof -
  have 1: "reset_cache_checked l p = Some (reset_cache l p)"
    by (simp add: reset_cache_checked_def reset_cache_def vec_get_def vec_set_def)
  have 2: "length (m_cached_bins p) \<le> index l \<longrightarrow> reset_cache l p = p"
    by (simp add: reset_cache_def)
  have 3: "length (m_cached_bins (reset_cache l p)) = length (m_cached_bins p)"
    by (simp add: reset_cache_def)
  have 4: "index l < length (vec_reserve (index l + 1) (m_cached_bins p))"
    by (simp add: vec_reserve_length)
  have 5: "cache_bins_checked l old_tr_sz (s, p) = Some (cache_bins l old_tr_sz (s, p))"
    using 4 by (simp add: cache_bins_checked_def cache_bins_def vec_get_def vec_set_def Let_def)
  have 6: "m_probing_cache p \<and> m_allocation_size s \<le> m_probing_cache_limit p \<longrightarrow>
        length (m_cached_bins (snd (cache_bins l old_tr_sz (s, p))))
          = max (index l + 1) (length (m_cached_bins p))
        \<and> m_cached_bins (snd (cache_bins l old_tr_sz (s, p))) ! index l
          = \<lparr>m_available = True, m_lits = drop old_tr_sz (m_trail s)\<rparr>"
    using 4 by (simp add: cache_bins_def Let_def vec_reserve_length)
  from 1 2 3 4 5 6 show ?thesis by blast
qed

theorem cache_operations_in_bounds_witness:
  "reset_cache (Lit 2 True) (mk_probing 10 True False) = mk_probing 10 True False
   \<and> reset_cache_checked (Lit 2 True) (mk_probing 10 True False) = Some (mk_probing 10 True False)
   \<and> length (m_cached_bins (snd (cache_bins (Lit 2 True) 0
        ((mk_solver [] (\<lambda>_. []) 3)\<lparr>m_trail := [Lit 1 False]\<rparr>, mk_probing 10 True False)))) = 6
   \<and> m_cached_bins (snd (cache_bins (Lit 2 True) 0
        ((mk_solver [] (\<lambda>_. []) 3)\<lparr>m_trail := [Lit 1 False]\<rparr>, mk_probing 10 True False))) ! 5
      = \<lparr>m_available = True, m_lits = [Lit 1 False]\<rparr>"
  using cache_operations_in_bounds [of "Lit 2 True" "mk_probing 10 True False" 0
      "(mk_solver [] (\<lambda>_. []) 3)\<lparr>m_trail := [Lit 1 False]\<rparr>"]
  by (simp add: mk_probing_def mk_solver_def index_def)

subsection \<open>Frames of the processor and the driver\<close>

lemma frame_refl [simp]: "frame sp sp"
  by (simp add: frame_def)

lemma frame_trans: "frame x y \<Longrightarrow> frame y z \<Longrightarrow> frame x z"
  unfolding frame_def using solver_frame_trans config_frame_trans by blast

lemma process_core_conflict:
  assumes "inconsistent (propagate (assign_scoped (Lit v False) (push s)))"
  shows "process_core v (s, p) =
    (propagate (assign_scoped (Lit v True)
       (pop 1 (drat_explain_conflict (propagate (assign_scoped (Lit v False) (push s)))))),
     p\<lparr>m_counter := m_counter p - 1, m_num_assigned := m_num_assigned p + 1\<rparr>)"
  using assms by (simp add: process_core_def Let_def neg_def)

lemma process_core_no_conflict:
  assumes "\<not> inconsistent (propagate (assign_scoped (Lit v False) (push s)))"
  shows "process_core v (s, p) =
    (let l = Lit v False;
         s3 = propagate (assign_scoped l (push s));
         old_tr_sz = length (m_trail (assign_scoped l (push s)));
         p2 = p\<lparr>m_counter := m_counter p - 1, m_assigned := set (drop old_tr_sz (m_trail s3))\<rparr>
     in case cache_bins l old_tr_sz (s3, p2) of
          (s4, p3) \<Rightarrow>
            (case try_lit (neg l) True (pop 1 s4, p3) of
               (ok, s6, p4) \<Rightarrow>
                 if \<not> ok then (s6, p4)
                 else if m_probing_binary p4
                 then process_binary l 0 (length (get_wlist s6 (neg l))) (s6, p4)
                 else (s6, p4)))"
  using assms by (simp add: process_core_def Let_def)

lemma process_binary_frame: "frame sp (process_binary l i sz sp)"
proof (rule process_binary_rel)
  show "frame (s, p) (s', p')" if "try_lit l2 False (s, p) = (ok, s', p')" for l2 s p ok s' p'
    using try_lit_frame [OF that] by (simp add: frame_def)
qed (auto intro: frame_trans)

lemma process_core_frame: "frame (s, p) (process_core v (s, p))"
proof (cases "inconsistent (propagate (assign_scoped (Lit v False) (push s)))")
  case True
  let ?s3 = "drat_explain_conflict (propagate (assign_scoped (Lit v False) (push s)))"
  have "solver_frame s (pop 1 ?s3)"
    by (rule solver_frame_pop_probe) (simp_all add: probe_prefix)
  then have "solver_frame s (propagate (assign_scoped (Lit v True) (pop 1 ?s3)))"
    using solver_frame_trans solver_frame_assign_scoped solver_frame_propagate by blast
  with True show ?thesis
    by (simp add: process_core_conflict frame_def config_frame_def)
next
  case False
  let ?l = "Lit v False"
  let ?s3 = "propagate (assign_scoped ?l (push s))"
  let ?n = "length (m_trail (assign_scoped ?l (push s)))"
  let ?p2 = "p\<lparr>m_counter := m_counter p - 1, m_assigned := set (drop ?n (m_trail ?s3))\<rparr>"
  obtain s4 p3 where 4: "cache_bins ?l ?n (?s3, ?p2) = (s4, p3)"
    by (cases "cache_bins ?l ?n (?s3, ?p2)") auto
  obtain ok s6 p4 where 6: "try_lit (neg ?l) True (pop 1 s4, p3) = (ok, s6, p4)"
    by (cases "try_lit (neg ?l) True (pop 1 s4, p3)") auto
  have "solver_frame s (pop 1 s4)"
    using cache_bins_static [OF 4]
    by (intro solver_frame_pop_probe) (simp_all add: probe_prefix)
  moreover have "config_frame p p3"
    using cache_bins_probing_frame [OF 4] by (auto simp: config_frame_def)
  ultimately have "frame (s, p) (pop 1 s4, p3)"
    by (simp add: frame_def)
  moreover have "frame (pop 1 s4, p3) (s6, p4)"
    using try_lit_frame [OF 6] by (simp add: frame_def)
  ultimately have a: "frame (s, p) (s6, p4)"
    by (rule frame_trans)
  have b: "frame (s, p) (process_binary ?l 0 n (s6, p4))" for n
    using a process_binary_frame by (rule frame_trans)
  show ?thesis
    using False 4 6 a b by (simp add: process_core_no_conflict Let_def)
qed

lemma process_frame: "frame (s, p) (process v (s, p))"
proof -
  obtain s' p' where 1: "process_core v (s, p) = (s', p')"
    by (cases "process_core v (s, p)") auto
  then have "frame (s, p) (s', p')"
    using process_core_frame [of s p v] by simp
  then show ?thesis
    using 1 by (auto simp: process_def Let_def frame_def config_frame_def)
qed

lemma scan_rel:
  assumes R_process: "\<And>v s p. R (s, p) (process v (s, p))"
    and R_checkpoint: "\<And>s s1 p. checkpoint s = Some s1 \<Longrightarrow> R (s, p) (s1, p)"
    and R_reset: "\<And>s p l. R (s, p) (s, reset_cache l p)"
    and R_stop: "\<And>s p v. R (s, p) (s, p\<lparr>m_stopped_at := v\<rparr>)"
    and R_refl: "\<And>x. R x x"
    and R_trans: "\<And>x y z. R x y \<Longrightarrow> R y z \<Longrightarrow> R x z"
  shows "R (s, p) (snd (scan limit num is (s, p)))"
proof (induction "is" arbitrary: s p)
  case Nil
  then show ?case by (simp add: R_refl)
next
  case (Cons i rest)
  let ?v = "((m_stopped_at p + i) mod 2 ^ 32) mod num"
  let ?p1 = "if m_probing_cache p
      then reset_cache (Lit ?v True) (reset_cache (Lit ?v False) p) else p"
  consider (budget) "m_counter p < limit"
    | (incons) "\<not> m_counter p < limit" "inconsistent s"
    | (skip) "\<not> m_counter p < limit" "\<not> inconsistent s"
        "var_value s ?v \<noteq> l_undef \<or> was_eliminated s ?v"
    | (cancel) "\<not> m_counter p < limit" "\<not> inconsistent s"
        "\<not> (var_value s ?v \<noteq> l_undef \<or> was_eliminated s ?v)" "checkpoint s = None"
    | (go) s1 where "\<not> m_counter p < limit" "\<not> inconsistent s"
        "\<not> (var_value s ?v \<noteq> l_undef \<or> was_eliminated s ?v)" "checkpoint s = Some s1"
    by (cases "checkpoint s") auto
  then show ?case
  proof cases
    case budget
    then show ?thesis by (simp add: Let_def R_stop)
  next
    case incons
    then show ?thesis by (simp add: Let_def R_refl)
  next
    case skip
    have "R (s, p) (s, ?p1)"
    proof (cases "m_probing_cache p")
      case True
      have "R (s, p) (s, reset_cache (Lit ?v False) p)"
        by (rule R_reset)
      moreover have "R (s, reset_cache (Lit ?v False) p)
          (s, reset_cache (Lit ?v True) (reset_cache (Lit ?v False) p))"
        by (rule R_reset)
      ultimately have "R (s, p) (s, reset_cache (Lit ?v True) (reset_cache (Lit ?v False) p))"
        by (rule R_trans)
      then show ?thesis
        using True by simp
    next
      case False
      then show ?thesis by (simp add: R_refl)
    qed
    moreover have "R (s, ?p1) (snd (scan limit num rest (s, ?p1)))"
      by (rule Cons.IH)
    ultimately have "R (s, p) (snd (scan limit num rest (s, ?p1)))"
      by (rule R_trans)
    moreover have "scan limit num (i # rest) (s, p) = scan limit num rest (s, ?p1)"
      using skip by (simp add: Let_def)
    ultimately show ?thesis
      by simp
  next
    case cancel
    then show ?thesis by (simp add: Let_def R_refl)
  next
    case go
    obtain s2 p2 where 2: "process ?v (s1, p) = (s2, p2)"
      by (cases "process ?v (s1, p)") auto
    have "R (s, p) (s1, p)"
      using go(4) by (rule R_checkpoint)
    moreover have "R (s1, p) (s2, p2)"
      using R_process [of s1 p ?v] 2 by simp
    ultimately have "R (s, p) (s2, p2)"
      by (rule R_trans)
    moreover have "R (s2, p2) (snd (scan limit num rest (s2, p2)))"
      by (rule Cons.IH)
    ultimately have "R (s, p) (snd (scan limit num rest (s2, p2)))"
      by (rule R_trans)
    moreover have "scan limit num (i # rest) (s, p) = scan limit num rest (s2, p2)"
      using go 2 by (simp add: Let_def)
    ultimately show ?thesis
      by simp
  qed
qed

lemmas eval_defs = mk_solver_def mk_probing_def process_def process_core_def try_lit_def
  cache_bins_def assert_lit_def propagate_def propagate_loop.simps propagate_round_def
  propagate_clause_def assign_scoped_def push_def pop.simps drat_explain_conflict_def
  lit_value_def neg_def index_def inconsistent_def Let_def vec_reserve_def cached_implied_lits_def
  get_wlist_def var_value_def was_eliminated_def checkpoint_def reset_cache_def finalize_def
  run_def num_vars_def process_binary.simps watches_of_def scope_lvl_def

subsection \<open>Scopes are closed\<close>

lemma scan_scopes_equivs:
  "scan limit num is (s, p) = (out, s', p') \<Longrightarrow> m_scopes s' = m_scopes s \<and> m_equivs p' = m_equivs p"
proof -
  let ?R = "\<lambda>sp sp'. m_scopes (fst sp') = m_scopes (fst sp) \<and> m_equivs (snd sp') = m_equivs (snd sp)"
  have "?R (s, p) (snd (scan limit num is (s, p)))"
  proof (rule scan_rel)
    show "?R (s, p) (process v (s, p))" for v s p
      using process_frame [of s p v] by (simp add: frame_def solver_frame_def config_frame_def)
    show "?R (s, p) (s1, p)" if "checkpoint s = Some s1" for s s1 p
      using that by (auto simp: checkpoint_def split: option.splits nat.splits)
    show "?R (s, p) (s, reset_cache l p)" for s p l
      by (simp add: reset_cache_def)
  qed auto
  then show "scan limit num is (s, p) = (out, s', p') \<Longrightarrow> m_scopes s' = m_scopes s \<and> m_equivs p' = m_equivs p"
    by simp
qed

lemma run_scopes: "m_scopes (fst (snd (run elim force (s, p)))) = m_scopes s"
proof -
  let ?s2 = "(propagate s)\<lparr>m_is_probing := True\<rparr>"
  have "m_scopes (fst (snd (case scan limit num is (?s2, p2) of
          (Canceled, s3, p3) \<Rightarrow> (Canceled, s3\<lparr>m_is_probing := b\<rparr>, p3)
        | (Returned r, s3, p3) \<Rightarrow>
            (let p4 = (if r then p3\<lparr>m_stopped_at := 0\<rparr> else p3);
                 p5 = p4\<lparr>m_counter := - m_counter p4\<rparr>;
                 p6 = (if n = m_num_assigned p5 then p5\<lparr>m_counter := m_counter p5 * 2\<rparr> else p5);
                 p7 = finalize p6;
                 s4 = (if m_equivs p7 \<noteq> [] then elim (m_equivs p7) s3 else s3)
             in (Returned r, s4\<lparr>m_is_probing := b\<rparr>, p7))))) = m_scopes s"
    if "m_equivs p2 = []" for limit num "is" p2 b n
  proof -
    obtain out s3 p3 where sc: "scan limit num is (?s2, p2) = (out, s3, p3)"
      by (cases "scan limit num is (?s2, p2)") auto
    from scan_scopes_equivs [OF sc] that have "m_scopes s3 = m_scopes s" "m_equivs p3 = []"
      by simp_all
    then show ?thesis
      by (cases out) (simp_all add: sc Let_def finalize_def)
  qed
  then show ?thesis
    by (simp add: run_def Let_def)
qed

text \<open>
  C6. Every scope that the prober or the processor opens is closed before the procedure
  returns, whatever path it takes: the probe runs one level deeper, the \<open>pop\<close> on
  the conflict path and the \<open>pop\<close> on the path without conflict both lead back, and
  the scope depth of the solver after \<open>try_lit\<close>, \<open>process_core\<close>, \<open>process\<close> and the
  driver is the depth before the call (also when the driver is skipped, interrupted
  by the budget or cancelled at a checkpoint).
\<close>

theorem scopes_closed:
  "scope_lvl (propagate (assign_scoped l (push s))) = scope_lvl s + 1
   \<and> scope_lvl (pop 1 (propagate (assign_scoped l (push s)))) = scope_lvl s
   \<and> scope_lvl (pop 1 (drat_explain_conflict (propagate (assign_scoped l (push s))))) = scope_lvl s
   \<and> scope_lvl (fst (snd (try_lit l updt_cache (s, p)))) = scope_lvl s
   \<and> scope_lvl (fst (process_core v (s, p))) = scope_lvl s
   \<and> scope_lvl (fst (process v (s, p))) = scope_lvl s
   \<and> scope_lvl (fst (snd (run elim force (s, p)))) = scope_lvl s"
proof -
  obtain us where us: "m_trail (propagate (assign_scoped l (push s))) = m_trail s @ us"
    using probe_trail by blast
  have 1: "scope_lvl (propagate (assign_scoped l (push s))) = scope_lvl s + 1"
    by (simp add: scope_lvl_def)
  have 2: "scope_lvl (pop 1 (propagate (assign_scoped l (push s)))) = scope_lvl s"
    unfolding scope_lvl_def by (subst pop_closes(2) [where s = s and us = us]) (simp_all add: us)
  have 3: "scope_lvl (pop 1 (drat_explain_conflict (propagate (assign_scoped l (push s))))) = scope_lvl s"
    unfolding scope_lvl_def by (subst pop_closes(2) [where s = s and us = us]) (simp_all add: us)
  have 4: "scope_lvl (fst (snd (try_lit l updt_cache (s, p)))) = scope_lvl s"
    using try_lit_scopes [of l updt_cache s p]
    by (cases "try_lit l updt_cache (s, p)") (simp add: scope_lvl_def)
  have 5: "scope_lvl (fst (process_core v (s, p))) = scope_lvl s"
    using process_core_frame [of s p v] by (simp add: frame_def solver_frame_def scope_lvl_def)
  have 6: "scope_lvl (fst (process v (s, p))) = scope_lvl s"
    using process_frame [of s p v] by (simp add: frame_def solver_frame_def scope_lvl_def)
  have 7: "scope_lvl (fst (snd (run elim force (s, p)))) = scope_lvl s"
    by (simp add: scope_lvl_def run_scopes)
  from 1 2 3 4 5 6 7 show ?thesis by blast
qed

theorem scopes_closed_witness:
  "scope_lvl (fst (snd (try_lit (Lit 0 False) True
      (push (mk_solver cs_fail (watches_of cs_fail) 2), mk_probing 100 True True)))) = 1
   \<and> scope_lvl (fst (process 0 (mk_solver cs_fail (watches_of cs_fail) 2, mk_probing 100 True True))) = 0
   \<and> scope_lvl (fst (snd (run (\<lambda>eqs s. s) True
      (mk_solver cs_fail (watches_of cs_fail) 2, mk_probing 100 True True)))) = 0"
  using scopes_closed [of "Lit 0 False" "push (mk_solver cs_fail (watches_of cs_fail) 2)" True
      "mk_probing 100 True True"]
    scopes_closed [of _ "mk_solver cs_fail (watches_of cs_fail) 2" _ "mk_probing 100 True True" 0
      "\<lambda>eqs s. s" True]
  by (simp add: scope_lvl_def mk_solver_def push_def)

subsection \<open>The failed positive probe\<close>

text \<open>
  C1. Let \<open>v\<close> be unassigned. If assuming \<open>v\<close> true in a new scope and propagating ends
  in a conflict, \<open>process v\<close> closes that scope (the trail and the scope depth are those
  before the call, the conflict is gone), asserts the negative literal of \<open>v\<close> at the
  outer scope, where it is the next literal on the trail, propagates there, counts one
  more forced assignment, and returns with the scope depth it was called with.
\<close>

theorem process_failed_literal:
  assumes "var_value s v = l_undef"
    and "inconsistent (propagate (assign_scoped (Lit v False) (push s)))"
  shows "(let s3 = propagate (assign_scoped (Lit v False) (push s));
              s5 = pop 1 (drat_explain_conflict s3);
              s6 = assign_scoped (Lit v True) s5;
              s' = fst (process v (s, p));
              p' = snd (process v (s, p))
          in scope_lvl s3 = scope_lvl s + 1
             \<and> scope_lvl s5 = scope_lvl s \<and> m_trail s5 = m_trail s \<and> \<not> inconsistent s5
             \<and> m_trail s6 = m_trail s @ [Lit v True] \<and> scope_lvl s6 = scope_lvl s
             \<and> s' = propagate s6
             \<and> scope_lvl s' = scope_lvl s
             \<and> take (length (m_trail s) + 1) (m_trail s') = m_trail s @ [Lit v True]
             \<and> lit_value s' (Lit v True) = l_true
             \<and> m_num_assigned p' = m_num_assigned p + 1
             \<and> p' = p\<lparr>m_counter := (if m_num_assigned p < m_num_assigned p + 1
                                     then m_counter p else m_counter p - 1),
                        m_num_assigned := m_num_assigned p + 1\<rparr>)"
proof -
  let ?s3 = "propagate (assign_scoped (Lit v False) (push s))"
  let ?s5 = "pop 1 (drat_explain_conflict ?s3)"
  let ?s6 = "assign_scoped (Lit v True) ?s5"
  obtain us where us: "m_trail ?s3 = m_trail s @ us"
    using probe_trail by blast
  have s5: "m_trail ?s5 = m_trail s" "m_scopes ?s5 = m_scopes s" "\<not> m_inconsistent ?s5"
    using pop_closes [where s = s and us = us and ?s3.0 = "drat_explain_conflict ?s3"]
    by (simp_all add: us)
  have "lit_value ?s5 (Lit v True) = l_undef"
    using assms(1) s5(1) by (auto simp: var_value_def lit_value_def neg_def split: if_splits)
  then have s6: "m_trail ?s6 = m_trail s @ [Lit v True]"
    using s5 by (simp add: assign_scoped_undef)
  obtain vs where vs: "m_trail (propagate ?s6) = m_trail ?s6 @ vs"
    using propagate_trail by blast
  have pc: "process_core v (s, p) =
      (propagate ?s6, p\<lparr>m_counter := m_counter p - 1, m_num_assigned := m_num_assigned p + 1\<rparr>)"
    using assms(2) by (rule process_core_conflict)
  have pr: "process v (s, p) =
      (propagate ?s6,
       p\<lparr>m_counter := (if m_num_assigned p < m_num_assigned p + 1
                        then m_counter p else m_counter p - 1),
          m_num_assigned := m_num_assigned p + 1\<rparr>)"
    by (simp add: process_def pc Let_def)
  have "lit_value (propagate ?s6) (Lit v True) = l_true"
    using vs s6 by (simp add: lit_value_def)
  then show ?thesis
    using s5 s6 vs by (simp add: pr Let_def scope_lvl_def inconsistent_def)
qed

theorem process_failed_literal_witness:
  "var_value (mk_solver cs_fail (watches_of cs_fail) 2) 0 = l_undef
   \<and> inconsistent (propagate (assign_scoped (Lit 0 False) (push (mk_solver cs_fail (watches_of cs_fail) 2))))
   \<and> m_trail (fst (process 0 (mk_solver cs_fail (watches_of cs_fail) 2, mk_probing 100 True True)))
       = [Lit 0 True]
   \<and> scope_lvl (fst (process 0 (mk_solver cs_fail (watches_of cs_fail) 2, mk_probing 100 True True))) = 0
   \<and> m_num_assigned (snd (process 0 (mk_solver cs_fail (watches_of cs_fail) 2, mk_probing 100 True True))) = 1
   \<and> m_counter (snd (process 0 (mk_solver cs_fail (watches_of cs_fail) 2, mk_probing 100 True True))) = 0"
proof -
  have h1: "var_value (mk_solver cs_fail (watches_of cs_fail) 2) 0 = l_undef"
    by (simp add: eval_defs cs_fail_def)
  have h2: "inconsistent (propagate (assign_scoped (Lit 0 False) (push (mk_solver cs_fail (watches_of cs_fail) 2))))"
    by (simp add: eval_defs cs_fail_def)
  have "m_trail (fst (process 0 (mk_solver cs_fail (watches_of cs_fail) 2, mk_probing 100 True True)))
       = [Lit 0 True]"
    by (simp add: eval_defs cs_fail_def)
  then show ?thesis
    using h1 h2 process_failed_literal [OF h1 h2, of "mk_probing 100 True True"]
    by (simp add: Let_def mk_probing_def mk_solver_def scope_lvl_def)
qed

subsection \<open>The cache-hit path\<close>

lemma lit_value_drat [simp]: "lit_value (s\<lparr>m_drat := d\<rparr>) l = lit_value s l"
  by (simp add: lit_value_def)

lemma assign_scoped_drat:
  "assign_scoped lit (s\<lparr>m_drat := d\<rparr>) = (assign_scoped lit s)\<lparr>m_drat := d\<rparr>"
  by (simp add: assign_scoped_def split: lbool.splits)

lemma fold_assign_scoped_drat:
  "fold assign_scoped lits (s\<lparr>m_drat := d\<rparr>) = (fold assign_scoped lits s)\<lparr>m_drat := d\<rparr>"
  by (induction lits arbitrary: s) (simp_all add: assign_scoped_drat)

lemma fold_assign_scoped_fields [simp]:
  "m_drat (fold assign_scoped lits s) = m_drat s"
  "m_drat_enabled (fold assign_scoped lits s) = m_drat_enabled s"
  "m_scopes (fold assign_scoped lits s) = m_scopes s"
  by (induction lits arbitrary: s) simp_all

lemma assert_all_eq:
  "assert_all l lits (s, p) =
     ((fold assign_scoped lits s)
        \<lparr>m_drat := (if m_drat_enabled s then m_drat s @ drat_lines l lits else m_drat s)\<rparr>,
      p\<lparr>m_num_assigned := m_num_assigned p + of_nat (length lits)\<rparr>)"
proof (induction lits arbitrary: s p)
  case Nil
  then show ?case by (simp add: drat_lines_def)
next
  case (Cons lit lits)
  show ?case
  proof (cases "m_drat_enabled s")
    case True
    then show ?thesis
      by (simp add: assert_lit_def Cons.IH assign_scoped_drat fold_assign_scoped_drat
          drat_lines_def algebra_simps)
  next
    case False
    then show ?thesis
      by (simp add: assert_lit_def Cons.IH algebra_simps)
  qed
qed

text \<open>
  The trail never holds a literal twice, and \<open>cache_bins\<close> stores fragments of the trail:
  the prober, the processor and the scan keep the state free of repetition, so that a cache
  hit reads a list without repetition.
\<close>

lemma no_repetition_initial: "no_repetition (mk_solver cs ws n, mk_probing lim cache bin)"
  by (simp add: no_repetition_def mk_solver_def mk_probing_def)

lemma distinct_assign_scoped: "distinct (m_trail s) \<Longrightarrow> distinct (m_trail (assign_scoped l s))"
  by (auto simp: assign_scoped_def lit_value_def split: lbool.splits if_splits)

lemma distinct_fold_assign_scoped:
  "distinct (m_trail s) \<Longrightarrow> distinct (m_trail (fold assign_scoped lits s))"
  by (induction lits arbitrary: s) (simp_all add: distinct_assign_scoped)

lemma distinct_fold_propagate_clause:
  assumes "distinct (m_trail s)"
  shows "distinct (m_trail (fold propagate_clause cs s))"
  using assms
proof (induction cs arbitrary: s)
  case Nil
  then show ?case by simp
next
  case (Cons c cs)
  obtain us where us: "m_trail (propagate_clause c s) = m_trail s @ us"
    "set us \<subseteq> set c - set (m_trail s)"
    using propagate_clause_trail by blast
  have "distinct us"
    using us(1) by (auto simp: propagate_clause_def split: list.splits if_splits)
  then have "distinct (m_trail (propagate_clause c s))"
    using us Cons.prems by auto
  then show ?case
    using Cons.IH by simp
qed

lemma distinct_propagate: "distinct (m_trail s) \<Longrightarrow> distinct (m_trail (propagate s))"
  unfolding propagate_def
proof (induction s rule: propagate_loop.induct)
  case (1 s)
  have r: "distinct (m_trail (propagate_round s))"
    using "1.prems" by (simp add: propagate_round_def distinct_fold_propagate_clause)
  show ?case
  proof (cases "m_inconsistent (propagate_round s)
      \<or> length (m_trail (propagate_round s)) = length (m_trail s)")
    case True
    then have "propagate_loop s = propagate_round s"
      by (subst propagate_loop.simps) (simp add: Let_def)
    with r show ?thesis by simp
  next
    case False
    then have "propagate_loop s = propagate_loop (propagate_round s)"
      by (subst propagate_loop.simps) (simp add: Let_def)
    then show ?thesis
      using False "1.IH" [OF refl _ r] by simp
  qed
qed

lemma distinct_pop: "distinct (m_trail s) \<Longrightarrow> distinct (m_trail (pop n s))"
  by (induction n s rule: pop.induct) (simp_all add: pop.simps split: list.splits)

lemma no_repetition_cache_bins:
  assumes "no_repetition (s, p)"
  shows "no_repetition (cache_bins l n (s, p))"
proof -
  have d: "distinct (drop n (m_trail s))"
    using assms by (simp add: no_repetition_def)
  have "list_all (\<lambda>e. distinct (m_lits e)) (xs[i := x])"
    if "list_all (\<lambda>e. distinct (m_lits e)) xs" "distinct (m_lits x)" for xs i and x :: cache_entry
    using that by (auto simp: list_all_iff dest!: set_update_subset_insert [THEN subsetD])
  moreover have "list_all (\<lambda>e. distinct (m_lits e)) (vec_reserve k (m_cached_bins p))" for k
    using assms by (auto simp add: no_repetition_def vec_reserve_def list_all_iff)
  ultimately show ?thesis
    using assms d by (simp add: no_repetition_def cache_bins_def Let_def)
qed

lemma no_repetition_reset_cache:
  "list_all (\<lambda>e. distinct (m_lits e)) (m_cached_bins p)
   \<Longrightarrow> list_all (\<lambda>e. distinct (m_lits e)) (m_cached_bins (reset_cache l p))"
  by (auto simp: reset_cache_def list_all_iff dest!: set_update_subset_insert [THEN subsetD])

lemma no_repetition_assert_all:
  "no_repetition (s, p) \<Longrightarrow> no_repetition (assert_all l lits (s, p))"
  by (simp add: no_repetition_def assert_all_eq distinct_fold_assign_scoped)

lemma no_repetition_try_lit:
  assumes "no_repetition (s, p)"
  shows "no_repetition (snd (try_lit l u (s, p)))"
proof (cases rule: try_lit_cases [where u = u and p = p and l = l and s = s])
  case (hit lits)
  then show ?thesis
    using assms
    by (simp add: try_lit_hit assert_all_eq no_repetition_def distinct_fold_assign_scoped
        distinct_propagate)
next
  case conflict
  then show ?thesis
    using assms
    by (simp add: try_lit_conflict no_repetition_def distinct_propagate distinct_assign_scoped
        distinct_pop)
next
  case no_conflict
  let ?s3 = "propagate (assign_scoped l (push s))"
  let ?n = "length (m_trail (assign_scoped l (push s)))"
  let ?p3 = "p\<lparr>m_counter := m_counter p - 1,
                m_to_assert := filter (\<lambda>lit. lit \<in> m_assigned p) (drop ?n (m_trail ?s3))\<rparr>"
  have 3: "no_repetition (?s3, ?p3)"
    using assms by (simp add: no_repetition_def distinct_propagate distinct_assign_scoped)
  obtain s4 p4 where 4: "(if u then cache_bins l ?n (?s3, ?p3) else (?s3, ?p3)) = (s4, p4)"
    by (cases "if u then cache_bins l ?n (?s3, ?p3) else (?s3, ?p3)") auto
  have "no_repetition (s4, p4)"
    using 3 4 no_repetition_cache_bins [OF 3, of l ?n] by (auto split: if_splits)
  then have "no_repetition (pop 1 s4, p4)"
    by (simp add: no_repetition_def distinct_pop)
  then have "no_repetition (assert_all l (m_to_assert p4) (pop 1 s4, p4))"
    by (rule no_repetition_assert_all)
  then have "no_repetition (propagate (fst (assert_all l (m_to_assert p4) (pop 1 s4, p4))),
      snd (assert_all l (m_to_assert p4) (pop 1 s4, p4)))"
    by (simp add: no_repetition_def distinct_propagate)
  then show ?thesis
    using no_conflict 4 by (simp add: try_lit_no_conflict Let_def case_prod_beta)
qed

lemma no_repetition_process_binary:
  "no_repetition sp \<Longrightarrow> no_repetition (process_binary l i sz sp)"
  using process_binary_rel [where R = "\<lambda>sp sp'. no_repetition sp \<longrightarrow> no_repetition sp'"
      and l = l and i = i and sz = sz and sp = sp]
    no_repetition_try_lit
  by (metis snd_conv)

lemma no_repetition_process_core:
  assumes "no_repetition (s, p)"
  shows "no_repetition (process_core v (s, p))"
proof (cases "inconsistent (propagate (assign_scoped (Lit v False) (push s)))")
  case True
  then show ?thesis
    using assms
    by (simp add: process_core_conflict no_repetition_def distinct_propagate
        distinct_assign_scoped distinct_pop)
next
  case False
  let ?l = "Lit v False"
  let ?s3 = "propagate (assign_scoped ?l (push s))"
  let ?n = "length (m_trail (assign_scoped ?l (push s)))"
  let ?p2 = "p\<lparr>m_counter := m_counter p - 1, m_assigned := set (drop ?n (m_trail ?s3))\<rparr>"
  obtain s4 p3 where 4: "cache_bins ?l ?n (?s3, ?p2) = (s4, p3)"
    by (cases "cache_bins ?l ?n (?s3, ?p2)") auto
  obtain ok s6 p4 where 6: "try_lit (neg ?l) True (pop 1 s4, p3) = (ok, s6, p4)"
    by (cases "try_lit (neg ?l) True (pop 1 s4, p3)") auto
  have "no_repetition (?s3, ?p2)"
    using assms by (simp add: no_repetition_def distinct_propagate distinct_assign_scoped)
  then have "no_repetition (s4, p3)"
    using no_repetition_cache_bins [of ?s3 ?p2 ?l ?n] 4 by simp
  then have "no_repetition (pop 1 s4, p3)"
    by (simp add: no_repetition_def distinct_pop)
  then have a: "no_repetition (s6, p4)"
    using no_repetition_try_lit [of "pop 1 s4" p3 "neg ?l" True] 6 by simp
  then have b: "no_repetition (process_binary ?l 0 k (s6, p4))" for k
    by (rule no_repetition_process_binary)
  show ?thesis
    using False 4 6 a b by (simp add: process_core_no_conflict Let_def)
qed

lemma no_repetition_process:
  "no_repetition (s, p) \<Longrightarrow> no_repetition (process v (s, p))"
  using no_repetition_process_core [of s p v]
  by (simp add: process_def Let_def case_prod_beta no_repetition_def)

lemma no_repetition_scan:
  "no_repetition (s, p) \<Longrightarrow> no_repetition (snd (scan limit num is (s, p)))"
proof -
  have "no_repetition (s, p) \<longrightarrow> no_repetition (snd (scan limit num is (s, p)))"
  proof (rule scan_rel [where R = "\<lambda>sp sp'. no_repetition sp \<longrightarrow> no_repetition sp'"])
    show "no_repetition (s, p) \<longrightarrow> no_repetition (process v (s, p))" for v s p
      by (simp add: no_repetition_process)
    show "no_repetition (s, p) \<longrightarrow> no_repetition (s1, p)" if "checkpoint s = Some s1" for s s1 p
      using that by (auto simp: checkpoint_def no_repetition_def split: option.splits nat.splits)
    show "no_repetition (s, p) \<longrightarrow> no_repetition (s, reset_cache l p)" for s p l
      by (simp add: no_repetition_def no_repetition_reset_cache)
    show "no_repetition (s, p) \<longrightarrow> no_repetition (s, p\<lparr>m_stopped_at := v\<rparr>)" for s p v
      by (simp add: no_repetition_def)
  qed auto
  then show "no_repetition (s, p) \<Longrightarrow> no_repetition (snd (scan limit num is (s, p)))"
    by simp
qed

lemma no_repetition_pass_scan:
  assumes "no_repetition sp"
  shows "no_repetition (snd (pass_scan sp))"
proof -
  obtain s p where sp: "sp = (s, p)"
    by (cases sp)
  have "no_repetition (pass_begin (s, p))"
    using assms sp by (simp add: pass_begin_def no_repetition_def distinct_propagate)
  then show ?thesis
    using no_repetition_scan [of "fst (pass_begin (s, p))" "snd (pass_begin (s, p))"]
    by (simp add: pass_scan_def sp)
qed

lemma cache_hit_no_repetition:
  assumes "no_repetition (s, p)" and "cached_implied_lits p l = Some lits"
  shows "distinct lits"
proof -
  from assms(2) have "index l < length (m_cached_bins p)"
    "lits = m_lits (m_cached_bins p ! index l)"
    by (auto simp: cached_implied_lits_def split: if_splits)
  then show ?thesis
    using assms(1) by (simp add: no_repetition_def list_all_length)
qed

text \<open>
  C2. On the cache-hit path of \<open>try_lit\<close> (the cache may be used and holds an entry
  for \<open>l\<close>) the literals asserted are the cached literals that are in \<open>m_assigned\<close>, in
  the order of the cached list: as a set, the intersection of the cached list with
  \<open>m_assigned\<close>, each of them once when the cached list has no repetition (which
  \<open>cache_hit_no_repetition\<close> gives in every state that the scan of a pass reaches from
  a state without repetition, such as an initial one). The solver
  after the call is the solver before it with exactly these literals assigned and then
  propagated; with proof logging on, the log gains the two lines of each asserted
  literal and nothing else; the count of forced assignments grows by the number of
  asserted literals; no scope is pushed (the state is built from \<open>assign_scoped\<close> and
  \<open>propagate\<close> alone and the scope stack is untouched); the result is whether the solver
  is consistent.
\<close>

theorem try_lit_cache_hit:
  assumes "cached_implied_lits p l = Some lits"
  shows "(let asserted = filter (\<lambda>lit. lit \<in> m_assigned p) lits;
              s1 = fold assign_scoped asserted s;
              s' = fst (snd (try_lit l False (s, p)));
              p' = snd (snd (try_lit l False (s, p)))
          in set asserted = set lits \<inter> m_assigned p
             \<and> (distinct lits \<longrightarrow> distinct asserted)
             \<and> s' = propagate (s1\<lparr>m_drat := (if m_drat_enabled s
                                               then m_drat s @ drat_lines l asserted
                                               else m_drat s)\<rparr>)
             \<and> m_drat s' = (if m_drat_enabled s then m_drat s @ drat_lines l asserted else m_drat s)
             \<and> length (drat_lines l asserted) = 2 * length asserted
             \<and> m_scopes s' = m_scopes s \<and> m_scopes s1 = m_scopes s
             \<and> p' = p\<lparr>m_num_assigned := m_num_assigned p + of_nat (length asserted)\<rparr>
             \<and> fst (try_lit l False (s, p)) = (\<not> inconsistent s'))"
proof -
  have "length (drat_lines l xs) = 2 * length xs" for xs
    by (induction xs) (simp_all add: drat_lines_def)
  then show ?thesis
    by (auto simp: try_lit_hit [OF assms] assert_all_eq Let_def)
qed

theorem try_lit_cache_hit_witness:
  "cached_implied_lits hit_probing (Lit 1 False) = Some [Lit 2 False, Lit 3 False]
   \<and> distinct [Lit 2 False, Lit 3 False]
   \<and> m_trail (fst (snd (try_lit (Lit 1 False) False (hit_solver, hit_probing)))) = [Lit 3 False]
   \<and> m_drat (fst (snd (try_lit (Lit 1 False) False (hit_solver, hit_probing))))
       = [Drat_add (Lit 1 False) (Lit 3 False), Drat_add (Lit 1 True) (Lit 3 False)]
   \<and> m_scopes (fst (snd (try_lit (Lit 1 False) False (hit_solver, hit_probing)))) = []
   \<and> m_num_assigned (snd (snd (try_lit (Lit 1 False) False (hit_solver, hit_probing)))) = 1"
proof -
  have h: "cached_implied_lits hit_probing (Lit 1 False) = Some [Lit 2 False, Lit 3 False]"
    by (simp add: cached_implied_lits_def hit_probing_def mk_probing_def index_def)
  have "m_trail (fst (snd (try_lit (Lit 1 False) False (hit_solver, hit_probing)))) = [Lit 3 False]"
    by (simp add: eval_defs hit_solver_def hit_probing_def)
  then show ?thesis
    using h try_lit_cache_hit [OF h, of hit_solver]
    by (simp add: Let_def drat_lines_def hit_solver_def hit_probing_def mk_solver_def
        mk_probing_def neg_def)
qed

subsection \<open>What a visit costs\<close>

lemma try_lit_counter:
  assumes "try_lit l u (s, p) = (ok, s', p')"
  shows "m_counter p' =
    (if \<not> u \<and> cached_implied_lits p l \<noteq> None then m_counter p else m_counter p - 1)"
proof (cases rule: try_lit_cases [where u = u and p = p and l = l and s = s])
  case (hit lits)
  with assms show ?thesis
    by (auto simp: try_lit_hit assert_all_eq)
next
  case conflict
  with assms show ?thesis
    by (auto simp: try_lit_conflict)
next
  case no_conflict
  let ?s3 = "propagate (assign_scoped l (push s))"
  let ?n = "length (m_trail (assign_scoped l (push s)))"
  let ?p3 = "p\<lparr>m_counter := m_counter p - 1,
                m_to_assert := filter (\<lambda>lit. lit \<in> m_assigned p) (drop ?n (m_trail ?s3))\<rparr>"
  obtain s4 p4 where 4: "(if u then cache_bins l ?n (?s3, ?p3) else (?s3, ?p3)) = (s4, p4)"
    by (cases "if u then cache_bins l ?n (?s3, ?p3) else (?s3, ?p3)") auto
  have "m_counter p4 = m_counter p - 1"
    using 4 cache_bins_probing_frame [of l ?n ?s3 ?p3 s4 p4] by (cases u) auto
  with no_conflict assms 4 show ?thesis
    by (auto simp: try_lit_no_conflict Let_def assert_all_eq)
qed

lemma process_binary_counter:
  "m_counter (snd (process_binary l i sz sp)) \<le> m_counter (snd sp)"
proof (rule process_binary_rel [where R = "\<lambda>sp sp'. m_counter (snd sp') \<le> m_counter (snd sp)"])
  show "m_counter (snd (s', p')) \<le> m_counter (snd (s, p))"
    if "try_lit l2 False (s, p) = (ok, s', p')" for l2 s p ok s' p'
    using try_lit_counter [OF that] by (simp split: if_splits)
qed auto

text \<open>
  C8, as the code has it. A visit of \<open>process_core\<close> charges one unit itself, and
  \<open>try_lit\<close> charges one more unit for every probe it runs in a scope of its own; a
  cache hit is free. So the visit costs exactly one unit when the positive probe
  fails, exactly two when it does not fail and binary probing is off, and at least
  two when binary probing is on.
\<close>

theorem process_core_cost:
  "(let probe = propagate (assign_scoped (Lit v False) (push s));
        p' = snd (process_core v (s, p))
    in (inconsistent probe \<longrightarrow> m_counter p' = m_counter p - 1)
       \<and> (\<not> inconsistent probe \<longrightarrow> m_counter p' \<le> m_counter p - 2)
       \<and> (\<not> inconsistent probe \<and> \<not> m_probing_binary p \<longrightarrow> m_counter p' = m_counter p - 2))
   \<and> m_counter (snd (snd (try_lit l updt_cache (s, p))))
       = (if \<not> updt_cache \<and> cached_implied_lits p l \<noteq> None then m_counter p else m_counter p - 1)"
proof -
  let ?l = "Lit v False"
  let ?s3 = "propagate (assign_scoped ?l (push s))"
  let ?n = "length (m_trail (assign_scoped ?l (push s)))"
  let ?p2 = "p\<lparr>m_counter := m_counter p - 1, m_assigned := set (drop ?n (m_trail ?s3))\<rparr>"
  have a: "m_counter (snd (process_core v (s, p))) = m_counter p - 1" if "inconsistent ?s3"
    using that by (simp add: process_core_conflict)
  have b: "m_counter (snd (process_core v (s, p))) \<le> m_counter p - 2
      \<and> (\<not> m_probing_binary p \<longrightarrow> m_counter (snd (process_core v (s, p))) = m_counter p - 2)"
    if nc: "\<not> inconsistent ?s3"
  proof -
    obtain s4 p3 where 4: "cache_bins ?l ?n (?s3, ?p2) = (s4, p3)"
      by (cases "cache_bins ?l ?n (?s3, ?p2)") auto
    obtain ok s6 p4 where 6: "try_lit (neg ?l) True (pop 1 s4, p3) = (ok, s6, p4)"
      by (cases "try_lit (neg ?l) True (pop 1 s4, p3)") auto
    have p3: "m_counter p3 = m_counter p - 1" "m_probing_binary p3 = m_probing_binary p"
      using cache_bins_probing_frame [OF 4] by auto
    have p4: "m_counter p4 = m_counter p - 2" "m_probing_binary p4 = m_probing_binary p"
      using try_lit_counter [OF 6] try_lit_frame(2) [OF 6] p3 by (simp_all add: config_frame_def)
    have "m_counter (snd (process_binary ?l 0 n (s6, p4))) \<le> m_counter p - 2" for n
      using process_binary_counter [of ?l 0 n "(s6, p4)"] p4 by simp
    then show ?thesis
      using nc 4 6 p4 by (simp add: process_core_no_conflict Let_def)
  qed
  have c: "m_counter (snd (snd (try_lit l updt_cache (s, p))))
       = (if \<not> updt_cache \<and> cached_implied_lits p l \<noteq> None then m_counter p else m_counter p - 1)"
    using try_lit_counter [of l updt_cache s p] by (cases "try_lit l updt_cache (s, p)") simp
  show ?thesis
    using a b c by (simp add: Let_def)
qed

theorem process_core_cost_witness:
  "\<not> inconsistent (propagate (assign_scoped (Lit 0 False) (push (mk_solver [] (\<lambda>l. []) 1))))
   \<and> \<not> m_probing_binary (mk_probing 100 False False)
   \<and> m_counter (snd (process_core 0 (mk_solver [] (\<lambda>l. []) 1, mk_probing 100 False False))) = - 2
   \<and> inconsistent (propagate (assign_scoped (Lit 0 False) (push (mk_solver cs_fail (watches_of cs_fail) 2))))
   \<and> m_counter (snd (process_core 0 (mk_solver cs_fail (watches_of cs_fail) 2, mk_probing 100 False False))) = - 1"
proof -
  have h1: "\<not> inconsistent (propagate (assign_scoped (Lit 0 False) (push (mk_solver [] (\<lambda>l. []) 1))))"
    by (simp add: eval_defs)
  have h2: "inconsistent (propagate (assign_scoped (Lit 0 False) (push (mk_solver cs_fail (watches_of cs_fail) 2))))"
    by (simp add: eval_defs cs_fail_def)
  show ?thesis
    using h1 h2
      process_core_cost [of 0 "mk_solver [] (\<lambda>l. []) 1" "mk_probing 100 False False"]
      process_core_cost [of 0 "mk_solver cs_fail (watches_of cs_fail) 2" "mk_probing 100 False False"]
    by (simp add: Let_def mk_probing_def)
qed

text \<open>
  C8 as stated (every visit consumes exactly one unit, whatever the outcome) fails on a
  single unassigned variable without clauses: the visit consumes two units.
\<close>

theorem process_core_cost_counterexample:
  "m_counter (mk_probing 100 False False) = 0
   \<and> m_counter (snd (process_core 0 (mk_solver [] (\<lambda>l. []) 1, mk_probing 100 False False)))
       \<noteq> m_counter (mk_probing 100 False False) - 1
   \<and> m_counter (snd (process_core 0 (mk_solver [] (\<lambda>l. []) 1, mk_probing 100 False False))) = - 2"
  by (simp add: eval_defs)

subsection \<open>A contradiction inside the prober is not counted\<close>

text \<open>
  C3, at the formula \<open>x0 \<or> x1\<close>, \<open>x0 \<or> \<not>x1\<close>: the positive probe of \<open>x0\<close> finds no
  conflict, \<open>try_lit\<close> on \<open>\<not>x0\<close> fails and asserts \<open>x0\<close> for good, but the count of
  forced assignments stays as it was (the failed-probe branch of \<open>try_lit\<close> has no
  \<open>m_num_assigned++\<close>, the one of \<open>process_core\<close> has), so \<open>process\<close> does not restore
  the counter: it is left at \<open>-2\<close>.
\<close>

theorem process_uncounted_contradiction:
  "var_value (mk_solver cs_neg_fail (watches_of cs_neg_fail) 2) 0 = l_undef
   \<and> m_trail (mk_solver cs_neg_fail (watches_of cs_neg_fail) 2) = []
   \<and> fst (try_lit (Lit 0 True) True (mk_solver cs_neg_fail (watches_of cs_neg_fail) 2,
        mk_probing 100 True False)) = False
   \<and> m_trail (fst (process 0 (mk_solver cs_neg_fail (watches_of cs_neg_fail) 2,
        mk_probing 100 True False))) = [Lit 0 False]
   \<and> m_num_assigned (snd (process 0 (mk_solver cs_neg_fail (watches_of cs_neg_fail) 2,
        mk_probing 100 True False))) = m_num_assigned (mk_probing 100 True False)
   \<and> m_counter (mk_probing 100 True False) = 0
   \<and> m_counter (snd (process 0 (mk_solver cs_neg_fail (watches_of cs_neg_fail) 2,
        mk_probing 100 True False))) = - 2"
  by (simp add: eval_defs cs_neg_fail_def)

subsection \<open>The driver\<close>

lemma upt_0_2: "[0..<2] = [0, Suc 0]"
  by (simp add: numeral_2_eq_2)

lemma upt_0_3: "[0..<3] = [0, Suc 0, Suc (Suc 0)]"
  by (simp add: numeral_3_eq_3)

lemma run_skipped:
  "\<not> pass_runs force (s, p) \<Longrightarrow>
     run elim force (s, p) = (Returned True, if m_probing p then propagate s else s, p)"
  by (auto simp: pass_runs_def run_def Let_def)

lemma pass_scan_equivs:
  "pass_scan (s, p) = (out, s3, p3) \<Longrightarrow> m_equivs p3 = []"
  unfolding pass_scan_def pass_begin_def
  by (auto dest!: scan_scopes_equivs split: if_splits)

lemma run_canceled:
  assumes "pass_runs force (s, p)" and "pass_scan (s, p) = (Canceled, s3, p3)"
  shows "run elim force (s, p) = (Canceled, s3\<lparr>m_is_probing := m_is_probing s\<rparr>, p3)"
  using assms
  by (auto simp: pass_runs_def run_def Let_def pass_scan_def pass_begin_def num_vars_def)

lemma run_returned:
  assumes "pass_runs force (s, p)" and "pass_scan (s, p) = (Returned r, s3, p3)"
  shows "run elim force (s, p) =
    (Returned r, s3\<lparr>m_is_probing := m_is_probing s\<rparr>,
     finalize (p3\<lparr>m_stopped_at := (if r then 0 else m_stopped_at p3),
                  m_counter := (if m_num_assigned p = m_num_assigned p3
                                then - m_counter p3 * 2 else - m_counter p3)\<rparr>))"
proof -
  have "m_equivs p3 = []"
    using assms(2) by (rule pass_scan_equivs)
  then show ?thesis
    using assms
    by (auto simp: pass_runs_def run_def Let_def pass_scan_def pass_begin_def num_vars_def
        finalize_def)
qed

lemma process_stopped_at: "m_stopped_at (snd (process v (s, p))) = m_stopped_at p"
  using process_frame [of s p v] by (simp add: frame_def config_frame_def)

lemma reset_cache_stopped_at [simp]: "m_stopped_at (reset_cache l p) = m_stopped_at p"
  by (simp add: reset_cache_def)

lemma scan_scan_vars:
  assumes "\<forall>i \<in> set is. m_stopped_at p + i < 2 ^ 32"
  shows "scan limit num is (s, p)
    = scan_vars limit (map (\<lambda>i. (m_stopped_at p + i) mod num) is) (s, p)"
  using assms
proof (induction "is" arbitrary: s p)
  case Nil
  then show ?case by simp
next
  case (Cons i rest)
  let ?v = "(m_stopped_at p + i) mod num"
  let ?p1 = "if m_probing_cache p
      then reset_cache (Lit ?v True) (reset_cache (Lit ?v False) p) else p"
  have v: "((m_stopped_at p + i) mod 2 ^ 32) mod num = ?v"
    using Cons.prems by simp
  have 1: "scan limit num rest (s, ?p1)
      = scan_vars limit (map (\<lambda>i. (m_stopped_at p + i) mod num) rest) (s, ?p1)"
    using Cons.IH [of ?p1 s] Cons.prems by simp
  have 2: "scan limit num rest (process ?v (s1, p))
      = scan_vars limit (map (\<lambda>i. (m_stopped_at p + i) mod num) rest) (process ?v (s1, p))" for s1
    using Cons.IH [of "snd (process ?v (s1, p))" "fst (process ?v (s1, p))"] Cons.prems
    by (simp add: process_stopped_at)
  show ?case
    using v 1 2 by (simp add: Let_def split: option.splits)
qed

lemma scan_vars_result:
  assumes "scan_vars limit vs (s, p) = (out, s', p')"
  shows "(out = Returned False \<longrightarrow>
           (\<exists>pre post. vs = pre @ m_stopped_at p' # post
              \<and> scan_vars limit pre (s, p) = (Returned True, s', p'\<lparr>m_stopped_at := m_stopped_at p\<rparr>)
              \<and> m_counter p' < limit))
       \<and> (out \<noteq> Returned False \<longrightarrow> m_stopped_at p' = m_stopped_at p)"
  using assms
proof (induction vs arbitrary: s p)
  case Nil
  then show ?case by auto
next
  case (Cons v vs)
  let ?p1 = "if m_probing_cache p
      then reset_cache (Lit v True) (reset_cache (Lit v False) p) else p"
  consider (budget) "m_counter p < limit"
    | (incons) "\<not> m_counter p < limit" "inconsistent s"
    | (skip) "\<not> m_counter p < limit" "\<not> inconsistent s"
        "var_value s v \<noteq> l_undef \<or> was_eliminated s v"
    | (cancel) "\<not> m_counter p < limit" "\<not> inconsistent s"
        "\<not> (var_value s v \<noteq> l_undef \<or> was_eliminated s v)" "checkpoint s = None"
    | (go) s1 where "\<not> m_counter p < limit" "\<not> inconsistent s"
        "\<not> (var_value s v \<noteq> l_undef \<or> was_eliminated s v)" "checkpoint s = Some s1"
    by (cases "checkpoint s") auto
  then show ?case
  proof cases
    case budget
    with Cons.prems have r: "out = Returned False" "s' = s" "p' = p\<lparr>m_stopped_at := v\<rparr>"
      by auto
    have "v # vs = [] @ m_stopped_at p' # vs
        \<and> scan_vars limit [] (s, p) = (Returned True, s', p'\<lparr>m_stopped_at := m_stopped_at p\<rparr>)
        \<and> m_counter p' < limit"
      using r budget by simp
    then show ?thesis
      using r by blast
  next
    case incons
    with Cons.prems show ?thesis by auto
  next
    case skip
    have m: "m_stopped_at ?p1 = m_stopped_at p"
      by simp
    from skip Cons.prems have rec: "scan_vars limit vs (s, ?p1) = (out, s', p')"
      by simp
    note ih = Cons.IH [OF rec]
    show ?thesis
    proof (cases "out = Returned False")
      case True
      with ih obtain pre post where pp: "vs = pre @ m_stopped_at p' # post"
        "scan_vars limit pre (s, ?p1) = (Returned True, s', p'\<lparr>m_stopped_at := m_stopped_at ?p1\<rparr>)"
        "m_counter p' < limit"
        by blast
      have "v # vs = (v # pre) @ m_stopped_at p' # post"
        using pp(1) by simp
      moreover have "scan_vars limit (v # pre) (s, p)
          = (Returned True, s', p'\<lparr>m_stopped_at := m_stopped_at p\<rparr>)"
        using skip pp(2) m by simp
      ultimately show ?thesis
        using True pp(3) by blast
    next
      case False
      with ih m show ?thesis by simp
    qed
  next
    case cancel
    with Cons.prems show ?thesis by auto
  next
    case go
    obtain s2 p2 where 2: "process v (s1, p) = (s2, p2)"
      by (cases "process v (s1, p)") auto
    have m: "m_stopped_at p2 = m_stopped_at p"
      using process_stopped_at [of v s1 p] 2 by simp
    from go Cons.prems 2 have rec: "scan_vars limit vs (s2, p2) = (out, s', p')"
      by simp
    note ih = Cons.IH [OF rec]
    show ?thesis
    proof (cases "out = Returned False")
      case True
      with ih obtain pre post where pp: "vs = pre @ m_stopped_at p' # post"
        "scan_vars limit pre (s2, p2) = (Returned True, s', p'\<lparr>m_stopped_at := m_stopped_at p2\<rparr>)"
        "m_counter p' < limit"
        by blast
      have "v # vs = (v # pre) @ m_stopped_at p' # post"
        using pp(1) by simp
      moreover have "scan_vars limit (v # pre) (s, p)
          = (Returned True, s', p'\<lparr>m_stopped_at := m_stopped_at p\<rparr>)"
        using go 2 pp(2) m by simp
      ultimately show ?thesis
        using True pp(3) by blast
    next
      case False
      with ih m show ?thesis by simp
    qed
  qed
qed

lemma pass_begin_fields [simp]:
  "m_stopped_at (snd (pass_begin (s, p))) = m_stopped_at p"
  "m_num_vars (fst (pass_begin (s, p))) = m_num_vars s"
  by (simp_all add: pass_begin_def)

lemma pass_scan_scan_vars:
  assumes "m_stopped_at p + num_vars s \<le> 2 ^ 32"
  shows "pass_scan (s, p)
    = scan_vars (- sint (m_probing_limit p)) (visit_order (m_stopped_at p) (num_vars s))
        (pass_begin (s, p))"
proof -
  obtain s2 p2 where b: "pass_begin (s, p) = (s2, p2)"
    by (cases "pass_begin (s, p)") auto
  then have m: "m_stopped_at p2 = m_stopped_at p"
    using pass_begin_fields(1) [of s p] by simp
  have "\<forall>i \<in> set [0..<num_vars s]. m_stopped_at p2 + i < 2 ^ 32"
    using assms m by auto
  then show ?thesis
    using scan_scan_vars [of "[0..<num_vars s]" p2 "- sint (m_probing_limit p)" "num_vars s" s2]
    by (simp add: pass_scan_def b m visit_order_def)
qed

text \<open>
  C4. When the driver runs a pass and \<open>m_stopped_at + num\<close> does not wrap, its loop is
  the scan of the variables \<open>(m_stopped_at + i) mod num\<close> for \<open>i = 0, ..., num - 1\<close> in
  this order. The driver returns what the scan ends with. If the scan ends on the
  budget (\<open>Returned False\<close>), the cursor afterwards is a variable of the order, the state
  is the one reached by scanning the variables before it (it has not been processed),
  and the counter at that point was below the limit; if the scan ends otherwise and
  returns, the cursor is \<open>0\<close> and the result is \<open>true\<close>.
\<close>

theorem run_scan_order:
  assumes "pass_runs force (s, p)" and "m_stopped_at p + num_vars s \<le> 2 ^ 32"
  shows "(let limit = - sint (m_probing_limit p);
              order = visit_order (m_stopped_at p) (num_vars s);
              out = fst (run elim force (s, p));
              s' = fst (snd (run elim force (s, p)));
              p' = snd (snd (run elim force (s, p)))
          in pass_scan (s, p) = scan_vars limit order (pass_begin (s, p))
             \<and> out = fst (pass_scan (s, p))
             \<and> (out = Returned True \<longrightarrow> m_stopped_at p' = 0)
             \<and> (out = Returned False \<longrightarrow>
                  (\<exists>pre post sb pb.
                      order = pre @ m_stopped_at p' # post
                      \<and> scan_vars limit pre (pass_begin (s, p)) = (Returned True, sb, pb)
                      \<and> m_counter pb < limit
                      \<and> s' = sb\<lparr>m_is_probing := m_is_probing s\<rparr>
                      \<and> m_num_assigned p' = m_num_assigned pb)))"
proof -
  let ?limit = "- sint (m_probing_limit p)"
  let ?order = "visit_order (m_stopped_at p) (num_vars s)"
  obtain s2 p2 where b: "pass_begin (s, p) = (s2, p2)"
    by (cases "pass_begin (s, p)") auto
  have m: "m_stopped_at p2 = m_stopped_at p"
    using pass_begin_fields(1) [of s p] b by simp
  have eq: "pass_scan (s, p) = scan_vars ?limit ?order (s2, p2)"
    using pass_scan_scan_vars [OF assms(2)] b by simp
  obtain out s3 p3 where sc: "pass_scan (s, p) = (out, s3, p3)"
    by (cases "pass_scan (s, p)") auto
  note res = scan_vars_result [OF sc [unfolded eq]]
  show ?thesis
  proof (cases out)
    case Canceled
    then show ?thesis
      using run_canceled [OF assms(1), of s3 p3 elim] sc eq b by (simp add: Let_def)
  next
    case (Returned r)
    note run = run_returned [OF assms(1) sc [unfolded Returned], of elim]
    show ?thesis
    proof (cases r)
      case True
      then show ?thesis
        using run sc eq b Returned by (simp add: Let_def finalize_def)
    next
      case False
      with res Returned obtain pre post where pp: "?order = pre @ m_stopped_at p3 # post"
        "scan_vars ?limit pre (s2, p2) = (Returned True, s3, p3\<lparr>m_stopped_at := m_stopped_at p2\<rparr>)"
        "m_counter p3 < ?limit"
        by blast
      have "?order = pre @ m_stopped_at p3 # post
          \<and> scan_vars ?limit pre (s2, p2) = (Returned True, s3, p3\<lparr>m_stopped_at := m_stopped_at p2\<rparr>)
          \<and> m_counter (p3\<lparr>m_stopped_at := m_stopped_at p2\<rparr>) < ?limit
          \<and> s3\<lparr>m_is_probing := m_is_probing s\<rparr> = s3\<lparr>m_is_probing := m_is_probing s\<rparr>
          \<and> m_num_assigned p3 = m_num_assigned (p3\<lparr>m_stopped_at := m_stopped_at p2\<rparr>)"
        using pp by simp
      then have "\<exists>pre post sb pb.
          ?order = pre @ m_stopped_at p3 # post
          \<and> scan_vars ?limit pre (s2, p2) = (Returned True, sb, pb)
          \<and> m_counter pb < ?limit
          \<and> s3\<lparr>m_is_probing := m_is_probing s\<rparr> = sb\<lparr>m_is_probing := m_is_probing s\<rparr>
          \<and> m_num_assigned p3 = m_num_assigned pb"
        by blast
      then show ?thesis
        using run sc eq b Returned False by (simp add: Let_def finalize_def)
    qed
  qed
qed

theorem run_scan_order_witness:
  "pass_runs True (mk_solver [] (\<lambda>l. []) 3, cursor_probing)
   \<and> m_stopped_at cursor_probing + num_vars (mk_solver [] (\<lambda>l. []) 3) \<le> 2 ^ 32
   \<and> visit_order (m_stopped_at cursor_probing) (num_vars (mk_solver [] (\<lambda>l. []) 3)) = [1, 2, 0]
   \<and> fst (run (\<lambda>eqs s. s) True (mk_solver [] (\<lambda>l. []) 3, cursor_probing)) = Returned False
   \<and> m_stopped_at (snd (snd (run (\<lambda>eqs s. s) True (mk_solver [] (\<lambda>l. []) 3, cursor_probing)))) = 2
   \<and> pass_runs True (mk_solver [] (\<lambda>l. []) 3, cursor_probing\<lparr>m_probing_limit := 100\<rparr>)
   \<and> fst (run (\<lambda>eqs s. s) True (mk_solver [] (\<lambda>l. []) 3, cursor_probing\<lparr>m_probing_limit := 100\<rparr>))
       = Returned True
   \<and> m_stopped_at (snd (snd (run (\<lambda>eqs s. s) True
        (mk_solver [] (\<lambda>l. []) 3, cursor_probing\<lparr>m_probing_limit := 100\<rparr>)))) = 0"
proof -
  have h1: "pass_runs True (mk_solver [] (\<lambda>l. []) 3, cursor_probing)"
    by (simp add: pass_runs_def cursor_probing_def eval_defs)
  have h2: "m_stopped_at cursor_probing + num_vars (mk_solver [] (\<lambda>l. []) 3) \<le> 2 ^ 32"
    by (simp add: cursor_probing_def eval_defs)
  have h3: "visit_order (m_stopped_at cursor_probing) (num_vars (mk_solver [] (\<lambda>l. []) 3)) = [1, 2, 0]"
    by (simp add: visit_order_def cursor_probing_def eval_defs upt_0_3)
  have h4: "fst (run (\<lambda>eqs s. s) True (mk_solver [] (\<lambda>l. []) 3, cursor_probing)) = Returned False"
    by (simp add: cursor_probing_def eval_defs upt_0_3)
  have h5: "m_stopped_at (snd (snd (run (\<lambda>eqs s. s) True (mk_solver [] (\<lambda>l. []) 3, cursor_probing)))) = 2"
    by (simp add: cursor_probing_def eval_defs upt_0_3)
  have h6: "pass_runs True (mk_solver [] (\<lambda>l. []) 3, cursor_probing\<lparr>m_probing_limit := 100\<rparr>)"
    by (simp add: pass_runs_def cursor_probing_def eval_defs)
  have h7: "fst (run (\<lambda>eqs s. s) True (mk_solver [] (\<lambda>l. []) 3, cursor_probing\<lparr>m_probing_limit := 100\<rparr>))
       = Returned True"
    by (simp add: cursor_probing_def eval_defs upt_0_3)
  have h8: "m_stopped_at (cursor_probing\<lparr>m_probing_limit := 100\<rparr>)
      + num_vars (mk_solver [] (\<lambda>l. []) 3) \<le> 2 ^ 32"
    by (simp add: cursor_probing_def eval_defs)
  show ?thesis
    using h1 h2 h3 h4 h5 h6 h7
      run_scan_order [OF h6 h8, of "\<lambda>eqs s. s"]
    by (simp add: Let_def)
qed

subsection \<open>The end of a pass\<close>

lemma entry_available_cache_bins:
  "entry_available p i \<Longrightarrow> entry_available (snd (cache_bins l n (s, p))) i"
  by (auto simp: entry_available_def cache_bins_def Let_def vec_reserve_def nth_append
      nth_list_update)

lemma entry_available_update [simp]:
  "entry_available (p\<lparr>m_counter := c\<rparr>) i = entry_available p i"
  "entry_available (p\<lparr>m_num_assigned := k\<rparr>) i = entry_available p i"
  "entry_available (p\<lparr>m_to_assert := t\<rparr>) i = entry_available p i"
  "entry_available (p\<lparr>m_assigned := a\<rparr>) i = entry_available p i"
  "entry_available (p\<lparr>m_stopped_at := v\<rparr>) i = entry_available p i"
  by (simp_all add: entry_available_def)

lemma entry_available_try_lit:
  assumes "entry_available p i"
  shows "entry_available (snd (snd (try_lit l u (s, p)))) i"
proof (cases rule: try_lit_cases [where u = u and p = p and l = l and s = s])
  case (hit lits)
  then show ?thesis
    using assms by (simp add: try_lit_hit assert_all_eq)
next
  case conflict
  then show ?thesis
    using assms by (simp add: try_lit_conflict)
next
  case no_conflict
  let ?s3 = "propagate (assign_scoped l (push s))"
  let ?n = "length (m_trail (assign_scoped l (push s)))"
  let ?p3 = "p\<lparr>m_counter := m_counter p - 1,
                m_to_assert := filter (\<lambda>lit. lit \<in> m_assigned p) (drop ?n (m_trail ?s3))\<rparr>"
  obtain s4 p4 where 4: "(if u then cache_bins l ?n (?s3, ?p3) else (?s3, ?p3)) = (s4, p4)"
    by (cases "if u then cache_bins l ?n (?s3, ?p3) else (?s3, ?p3)") auto
  have "entry_available ?p3 i"
    using assms by simp
  then have "entry_available p4 i"
    using 4 entry_available_cache_bins [of ?p3 i l ?n ?s3] by (auto split: if_splits)
  then show ?thesis
    using no_conflict 4 by (simp add: try_lit_no_conflict Let_def assert_all_eq)
qed

lemma entry_available_process_binary:
  "entry_available (snd sp) i \<Longrightarrow> entry_available (snd (process_binary l k sz sp)) i"
  using process_binary_rel [where R = "\<lambda>sp sp'. entry_available (snd sp) i \<longrightarrow> entry_available (snd sp') i"
      and l = l and i = k and sz = sz and sp = sp]
    entry_available_try_lit
  by (metis snd_conv)

lemma entry_available_process_core:
  assumes "entry_available p i"
  shows "entry_available (snd (process_core v (s, p))) i"
proof (cases "inconsistent (propagate (assign_scoped (Lit v False) (push s)))")
  case True
  then show ?thesis
    using assms by (simp add: process_core_conflict)
next
  case False
  let ?l = "Lit v False"
  let ?s3 = "propagate (assign_scoped ?l (push s))"
  let ?n = "length (m_trail (assign_scoped ?l (push s)))"
  let ?p2 = "p\<lparr>m_counter := m_counter p - 1, m_assigned := set (drop ?n (m_trail ?s3))\<rparr>"
  obtain s4 p3 where 4: "cache_bins ?l ?n (?s3, ?p2) = (s4, p3)"
    by (cases "cache_bins ?l ?n (?s3, ?p2)") auto
  obtain ok s6 p4 where 6: "try_lit (neg ?l) True (pop 1 s4, p3) = (ok, s6, p4)"
    by (cases "try_lit (neg ?l) True (pop 1 s4, p3)") auto
  have "entry_available ?p2 i"
    using assms by simp
  then have "entry_available p3 i"
    using entry_available_cache_bins [of ?p2 i ?l ?n ?s3] 4 by simp
  then have a: "entry_available p4 i"
    using entry_available_try_lit [of p3 i "neg ?l" True "pop 1 s4"] 6 by simp
  then have b: "entry_available (snd (process_binary ?l 0 k (s6, p4))) i" for k
    using entry_available_process_binary [of "(s6, p4)" i ?l 0 k] by simp
  show ?thesis
    using False 4 6 a b by (simp add: process_core_no_conflict Let_def)
qed

lemma entry_available_process:
  "entry_available p i \<Longrightarrow> entry_available (snd (process v (s, p))) i"
  using entry_available_process_core [of p i v s]
  by (simp add: process_def Let_def case_prod_beta)

lemma entry_available_reset_cache:
  "index l \<noteq> i \<Longrightarrow> entry_available (reset_cache l p) i = entry_available p i"
  by (simp add: entry_available_def reset_cache_def)

lemma solver_frame_assigned:
  assumes "solver_frame s s'"
    and "var_value s v \<noteq> l_undef \<or> was_eliminated s v"
  shows "var_value s' v \<noteq> l_undef \<or> was_eliminated s' v"
proof -
  have "set (m_trail s) \<subseteq> set (m_trail s')"
    using assms(1) by (metis solver_frame_def set_take_subset)
  then show ?thesis
    using assms by (auto simp: solver_frame_def var_value_def lit_value_def was_eliminated_def
        split: if_splits)
qed

lemma scan_keeps_entries:
  assumes "entry_available p i \<or> var_value s (i div 2) \<noteq> l_undef \<or> was_eliminated s (i div 2)"
    and "scan limit num is (s, p) = (out, s', p')"
  shows "entry_available p' i \<or> var_value s' (i div 2) \<noteq> l_undef \<or> was_eliminated s' (i div 2)"
  using assms
proof (induction "is" arbitrary: s p)
  case Nil
  then show ?case by auto
next
  case (Cons j rest)
  let ?v = "((m_stopped_at p + j) mod 2 ^ 32) mod num"
  let ?p1 = "if m_probing_cache p
      then reset_cache (Lit ?v True) (reset_cache (Lit ?v False) p) else p"
  consider (budget) "m_counter p < limit"
    | (incons) "\<not> m_counter p < limit" "inconsistent s"
    | (skip) "\<not> m_counter p < limit" "\<not> inconsistent s"
        "var_value s ?v \<noteq> l_undef \<or> was_eliminated s ?v"
    | (cancel) "\<not> m_counter p < limit" "\<not> inconsistent s"
        "\<not> (var_value s ?v \<noteq> l_undef \<or> was_eliminated s ?v)" "checkpoint s = None"
    | (go) s1 where "\<not> m_counter p < limit" "\<not> inconsistent s"
        "\<not> (var_value s ?v \<noteq> l_undef \<or> was_eliminated s ?v)" "checkpoint s = Some s1"
    by (cases "checkpoint s") auto
  then show ?case
  proof cases
    case budget
    then show ?thesis
      using Cons.prems by (auto simp: Let_def)
  next
    case incons
    then show ?thesis
      using Cons.prems by (auto simp: Let_def)
  next
    case skip
    have "entry_available ?p1 i \<or> var_value s (i div 2) \<noteq> l_undef \<or> was_eliminated s (i div 2)"
    proof (cases "i div 2 = ?v")
      case True
      then show ?thesis
        using skip(3) by simp
    next
      case False
      then have "index (Lit ?v False) \<noteq> i" "index (Lit ?v True) \<noteq> i"
        by (auto simp: index_def)
      then show ?thesis
        using Cons.prems(1) by (simp add: entry_available_reset_cache)
    qed
    moreover have "scan limit num rest (s, ?p1) = (out, s', p')"
      using skip Cons.prems(2) by (auto simp: Let_def split: if_splits)
    ultimately show ?thesis
      by (rule Cons.IH)
  next
    case cancel
    then show ?thesis
      using Cons.prems by (auto simp: Let_def)
  next
    case go
    obtain s2 p2 where 2: "process ?v (s1, p) = (s2, p2)"
      by (cases "process ?v (s1, p)") auto
    have s1: "var_value s1 = var_value s" "was_eliminated s1 = was_eliminated s"
      using go(4)
      by (auto simp: checkpoint_def var_value_def lit_value_def was_eliminated_def fun_eq_iff
          split: option.splits nat.splits)
    have "solver_frame s1 s2"
      using process_frame [of s1 p ?v] 2 by (simp add: frame_def)
    then have "entry_available p2 i \<or> var_value s2 (i div 2) \<noteq> l_undef \<or> was_eliminated s2 (i div 2)"
      using Cons.prems(1) entry_available_process [of p i ?v s1] 2 s1
        solver_frame_assigned [of s1 s2 "i div 2"]
      by auto
    moreover have "scan limit num rest (s2, p2) = (out, s', p')"
      using go 2 Cons.prems(2) by (simp add: Let_def)
    ultimately show ?thesis
      by (rule Cons.IH)
  qed
qed

text \<open>
  C7, as the code has it. During the scan of a pass an entry that is available stays
  available (a new probe of its literal may replace its list) unless the scan finds its
  variable assigned or eliminated: an entry that is gone at the end of the scan belongs to
  a variable that is then assigned or eliminated. \<open>reset_cache\<close>, which the scan calls
  for such a variable, takes the entry of its literal away and leaves the others. A pass that returns ends with
  \<open>finalize\<close>, which releases \<open>m_cached_bins\<close> as a whole: the cache is empty afterwards
  and no lookup succeeds, whatever the state of the variables and of memory. Only a pass
  that a checkpoint cancels leaves the entries of its scan behind; the next pass that runs
  drops them at its start when the cache is enabled and memory is above the limit.
\<close>

theorem cache_entry_lifetime:
  "(entry_available p i \<and> scan limit num js (s, p) = (out, s', p')
      \<longrightarrow> entry_available p' i \<or> var_value s' (i div 2) \<noteq> l_undef \<or> was_eliminated s' (i div 2))
   \<and> \<not> entry_available (reset_cache l p) (index l)
   \<and> (i \<noteq> index l \<longrightarrow> entry_available (reset_cache l p) i = entry_available p i)
   \<and> (pass_runs force (s, p) \<and> fst (run elim force (s, p)) = Returned r
      \<longrightarrow> m_cached_bins (snd (snd (run elim force (s, p)))) = []
        \<and> cached_implied_lits (snd (snd (run elim force (s, p)))) l = None)
   \<and> (pass_runs force (s, p) \<and> fst (run elim force (s, p)) = Canceled
      \<longrightarrow> m_cached_bins (snd (snd (run elim force (s, p))))
          = m_cached_bins (snd (snd (pass_scan (s, p)))))
   \<and> m_cached_bins (snd (pass_begin (s, p)))
       = (if m_probing_cache p \<and> m_probing_cache_limit p < m_allocation_size (propagate s)
          then [] else m_cached_bins p)"
proof -
  have pb: "m_cached_bins (snd (pass_begin (s, p)))
       = (if m_probing_cache p \<and> m_probing_cache_limit p < m_allocation_size (propagate s)
          then [] else m_cached_bins p)"
    by (simp add: pass_begin_def)
  have rs: "\<not> entry_available (reset_cache l p) (index l)"
    by (simp add: entry_available_def reset_cache_def)
  have ro: "entry_available (reset_cache l p) i = entry_available p i" if "i \<noteq> index l"
    using that entry_available_reset_cache [of l i p] by simp
  obtain out3 s3 p3 where sc: "pass_scan (s, p) = (out3, s3, p3)"
    by (cases "pass_scan (s, p)") auto
  have "m_cached_bins (snd (snd (run elim force (s, p)))) = []
      \<and> cached_implied_lits (snd (snd (run elim force (s, p)))) l = None"
    if "pass_runs force (s, p)" "fst (run elim force (s, p)) = Returned r"
  proof (cases out3)
    case (Returned r')
    then show ?thesis
      using run_returned [OF that(1), of r' s3 p3 elim] sc
      by (simp add: finalize_def cached_implied_lits_def)
  next
    case Canceled
    then show ?thesis
      using run_canceled [OF that(1), of s3 p3 elim] sc that(2) by simp
  qed
  moreover have "m_cached_bins (snd (snd (run elim force (s, p))))
      = m_cached_bins (snd (snd (pass_scan (s, p))))"
    if "pass_runs force (s, p)" "fst (run elim force (s, p)) = Canceled"
  proof (cases out3)
    case (Returned r')
    then show ?thesis
      using run_returned [OF that(1), of r' s3 p3 elim] sc that(2) by simp
  next
    case Canceled
    then show ?thesis
      using run_canceled [OF that(1), of s3 p3 elim] sc by simp
  qed
  moreover have "entry_available p' i \<or> var_value s' (i div 2) \<noteq> l_undef \<or> was_eliminated s' (i div 2)"
    if "entry_available p i" "scan limit num js (s, p) = (out, s', p')"
    using scan_keeps_entries [of p i s limit num js out s' p'] that by simp
  ultimately show ?thesis
    using pb rs ro by (intro conjI impI) simp_all
qed

theorem cache_entry_lifetime_witness:
  "entry_available kept_probing 0
   \<and> entry_available (snd (snd (scan (- 100) 1 [0] (mk_solver [] (\<lambda>l. []) 1, kept_probing)))) 0
   \<and> var_value (fst (snd (scan (- 100) 1 [0] (mk_solver [] (\<lambda>l. []) 1, kept_probing)))) 0 = l_undef
   \<and> pass_runs True (mk_solver [] (\<lambda>l. []) 1, mk_probing 100 True False)
   \<and> fst (run (\<lambda>eqs s. s) True (mk_solver [] (\<lambda>l. []) 1, mk_probing 100 True False)) = Returned True
   \<and> m_cached_bins (snd (snd (run (\<lambda>eqs s. s) True
         (mk_solver [] (\<lambda>l. []) 1, mk_probing 100 True False)))) = []
   \<and> pass_runs True (cancel_solver, mk_probing 100 True False)
   \<and> fst (run (\<lambda>eqs s. s) True (cancel_solver, mk_probing 100 True False)) = Canceled
   \<and> m_cached_bins (snd (snd (run (\<lambda>eqs s. s) True (cancel_solver, mk_probing 100 True False))))
       = [\<lparr>m_available = True, m_lits = []\<rparr>, \<lparr>m_available = True, m_lits = []\<rparr>]"
proof -
  let ?s = "mk_solver [] (\<lambda>l. []) 1"
  let ?p = "mk_probing 100 True False"
  let ?sc = "scan (- 100) 1 [0] (?s, kept_probing)"
  have a1: "entry_available kept_probing 0"
    by (simp add: entry_available_def kept_probing_def)
  have a2: "?sc = (fst ?sc, fst (snd ?sc), snd (snd ?sc))"
    by simp
  have a3: "var_value (fst (snd ?sc)) 0 = l_undef"
    by (simp add: eval_defs kept_probing_def)
  have a4: "\<not> was_eliminated (fst (snd ?sc)) 0"
    by (simp add: eval_defs kept_probing_def)
  have b1: "pass_runs True (?s, ?p)"
    by (simp add: pass_runs_def eval_defs)
  have b2: "fst (run (\<lambda>eqs s. s) True (?s, ?p)) = Returned True"
    by (simp add: eval_defs)
  have c1: "pass_runs True (cancel_solver, ?p)"
    by (simp add: pass_runs_def eval_defs cancel_solver_def)
  have c2: "fst (run (\<lambda>eqs s. s) True (cancel_solver, ?p)) = Canceled"
    by (simp add: eval_defs cancel_solver_def upt_0_2)
  have c3: "m_cached_bins (snd (snd (pass_scan (cancel_solver, ?p))))
      = [\<lparr>m_available = True, m_lits = []\<rparr>, \<lparr>m_available = True, m_lits = []\<rparr>]"
    by (simp add: pass_scan_def pass_begin_def eval_defs cancel_solver_def upt_0_2)
  show ?thesis
    using a1 a3 a4 b1 b2 c1 c2 c3
      cache_entry_lifetime [where p = kept_probing and i = 0 and limit = "- 100" and num = 1
        and js = "[0]" and s = ?s and out = "fst ?sc" and s' = "fst (snd ?sc)"
        and p' = "snd (snd ?sc)" and force = True and elim = "\<lambda>eqs s. s" and r = True]
      cache_entry_lifetime [where s = ?s and p = ?p and force = True and elim = "\<lambda>eqs s. s"
        and r = True]
      cache_entry_lifetime [where s = cancel_solver and p = ?p and force = True
        and elim = "\<lambda>eqs s. s"]
    by simp
qed

text \<open>
  C7 as stated fails on one unassigned variable and no clause: the scan creates available
  entries for \<open>x0\<close> and \<open>\<not>x0\<close>, the variable stays unassigned and is not eliminated,
  memory is below the limit, and after the pass the cache is empty and both lookups fail.
\<close>

theorem cache_entry_lost_counterexample:
  "m_cached_bins (snd (snd (pass_scan (mk_solver [] (\<lambda>l. []) 1, mk_probing 100 True False))))
       = [\<lparr>m_available = True, m_lits = []\<rparr>, \<lparr>m_available = True, m_lits = []\<rparr>]
   \<and> fst (run (\<lambda>eqs s. s) True (mk_solver [] (\<lambda>l. []) 1, mk_probing 100 True False)) = Returned True
   \<and> var_value (fst (snd (run (\<lambda>eqs s. s) True (mk_solver [] (\<lambda>l. []) 1, mk_probing 100 True False)))) 0
       = l_undef
   \<and> \<not> was_eliminated (fst (snd (run (\<lambda>eqs s. s) True
         (mk_solver [] (\<lambda>l. []) 1, mk_probing 100 True False)))) 0
   \<and> m_allocation_size (mk_solver [] (\<lambda>l. []) 1) \<le> m_probing_cache_limit (mk_probing 100 True False)
   \<and> m_cached_bins (snd (snd (run (\<lambda>eqs s. s) True
         (mk_solver [] (\<lambda>l. []) 1, mk_probing 100 True False)))) = []
   \<and> cached_implied_lits (snd (snd (run (\<lambda>eqs s. s) True
         (mk_solver [] (\<lambda>l. []) 1, mk_probing 100 True False)))) (Lit 0 False) = None
   \<and> cached_implied_lits (snd (snd (run (\<lambda>eqs s. s) True
         (mk_solver [] (\<lambda>l. []) 1, mk_probing 100 True False)))) (Lit 0 True) = None"
  by (simp add: pass_scan_def pass_begin_def eval_defs)

text \<open>
  The end of a pass, as the code has it. At the end of a pass that returns, the counter of
  the scan is negated, and doubled exactly when the count of forced assignments is the one the
  pass started with. Whether a later invocation without \<open>force\<close> runs a pass does not
  depend on the cursor: it runs exactly when probing is enabled, the solver is
  consistent after propagation and the counter is not positive; with a positive
  counter it returns \<open>true\<close> and leaves the probing object as it is.
\<close>

theorem end_of_pass_counter_and_gate:
  assumes "pass_runs force (s, p)" and "pass_scan (s, p) = (Returned r, s3, p3)"
  shows "m_counter (snd (snd (run elim force (s, p)))) =
      (if m_num_assigned p3 = m_num_assigned p then 2 * (- m_counter p3) else - m_counter p3)
    \<and> m_num_assigned (snd (snd (run elim force (s, p)))) = m_num_assigned p3
    \<and> (pass_runs False (s', p'\<lparr>m_stopped_at := c\<rparr>)
          \<longleftrightarrow> m_probing p' \<and> \<not> inconsistent (propagate s') \<and> m_counter p' \<le> 0)
    \<and> (m_probing p' \<and> 0 < m_counter p' \<longrightarrow>
          run elim False (s', p'\<lparr>m_stopped_at := c\<rparr>)
            = (Returned True, propagate s', p'\<lparr>m_stopped_at := c\<rparr>))"
proof -
  have "run elim False (s', p'\<lparr>m_stopped_at := c\<rparr>)
      = (Returned True, propagate s', p'\<lparr>m_stopped_at := c\<rparr>)"
    if "m_probing p'" "0 < m_counter p'"
    using that run_skipped [of False s' "p'\<lparr>m_stopped_at := c\<rparr>" elim] by (simp add: pass_runs_def)
  then show ?thesis
    using run_returned [OF assms, of elim] by (auto simp: finalize_def pass_runs_def)
qed

theorem end_of_pass_counter_and_gate_witness:
  "pass_runs True (mk_solver cs_fail (watches_of cs_fail) 2, mk_probing 100 True False)
   \<and> fst (pass_scan (mk_solver cs_fail (watches_of cs_fail) 2, mk_probing 100 True False)) = Returned True
   \<and> m_counter (snd (snd (pass_scan (mk_solver cs_fail (watches_of cs_fail) 2, mk_probing 100 True False)))) = - 2
   \<and> m_num_assigned (snd (snd (pass_scan (mk_solver cs_fail (watches_of cs_fail) 2, mk_probing 100 True False)))) = 1
   \<and> m_counter (snd (snd (run (\<lambda>eqs s. s) True
        (mk_solver cs_fail (watches_of cs_fail) 2, mk_probing 100 True False)))) = 2
   \<and> pass_runs True (mk_solver [] (\<lambda>l. []) 1, mk_probing 100 True False)
   \<and> m_counter (snd (snd (pass_scan (mk_solver [] (\<lambda>l. []) 1, mk_probing 100 True False)))) = - 2
   \<and> m_num_assigned (snd (snd (pass_scan (mk_solver [] (\<lambda>l. []) 1, mk_probing 100 True False)))) = 0
   \<and> m_counter (snd (snd (run (\<lambda>eqs s. s) True
        (mk_solver [] (\<lambda>l. []) 1, mk_probing 100 True False)))) = 4
   \<and> run (\<lambda>eqs s. s) False (mk_solver [] (\<lambda>l. []) 1,
        (mk_probing 100 True False)\<lparr>m_counter := 4, m_stopped_at := 7\<rparr>)
       = (Returned True, propagate (mk_solver [] (\<lambda>l. []) 1),
          (mk_probing 100 True False)\<lparr>m_counter := 4, m_stopped_at := 7\<rparr>)"
proof -
  let ?s1 = "mk_solver cs_fail (watches_of cs_fail) 2"
  let ?s2 = "mk_solver [] (\<lambda>l. []) 1"
  let ?p = "mk_probing 100 True False"
  have a1: "pass_runs True (?s1, ?p)"
    by (simp add: pass_runs_def eval_defs cs_fail_def)
  have a2: "pass_scan (?s1, ?p)
      = (Returned True, fst (snd (pass_scan (?s1, ?p))), snd (snd (pass_scan (?s1, ?p))))"
    by (simp add: pass_scan_def pass_begin_def eval_defs cs_fail_def upt_0_2)
  have a3: "m_counter (snd (snd (pass_scan (?s1, ?p)))) = - 2"
    by (simp add: pass_scan_def pass_begin_def eval_defs cs_fail_def upt_0_2)
  have a4: "m_num_assigned (snd (snd (pass_scan (?s1, ?p)))) = 1"
    by (simp add: pass_scan_def pass_begin_def eval_defs cs_fail_def upt_0_2)
  have b1: "pass_runs True (?s2, ?p)"
    by (simp add: pass_runs_def eval_defs)
  have b2: "pass_scan (?s2, ?p)
      = (Returned True, fst (snd (pass_scan (?s2, ?p))), snd (snd (pass_scan (?s2, ?p))))"
    by (simp add: pass_scan_def pass_begin_def eval_defs)
  have b3: "m_counter (snd (snd (pass_scan (?s2, ?p)))) = - 2"
    by (simp add: pass_scan_def pass_begin_def eval_defs)
  have b4: "m_num_assigned (snd (snd (pass_scan (?s2, ?p)))) = 0"
    by (simp add: pass_scan_def pass_begin_def eval_defs)
  have p: "m_num_assigned ?p = 0" "m_probing ?p"
    by (simp_all add: mk_probing_def)
  have a5: "fst (pass_scan (?s1, ?p)) = Returned True"
    using a2 by (metis fst_conv)
  show ?thesis
    using a1 a5 a3 a4 b1 b3 b4 p
      end_of_pass_counter_and_gate [OF a1 a2, where elim = "\<lambda>eqs s. s" and s' = ?s2
        and p' = "?p\<lparr>m_counter := 4\<rparr>" and c = 7]
      end_of_pass_counter_and_gate [OF b1 b2, where elim = "\<lambda>eqs s. s" and s' = ?s2
        and p' = "?p\<lparr>m_counter := 4\<rparr>" and c = 7]
    by simp
qed

text \<open>
  C9, at the formula \<open>x0 \<or> x1\<close>, \<open>x0 \<or> \<not>x1\<close>: the forced pass asserts \<open>x0\<close> for good, but
  the contradiction that forces it is found inside \<open>try_lit\<close>, whose failed-probe branch
  does not count it. The count of forced assignments therefore ends as it started, and
  the counter of the scan, \<open>-4\<close>, is negated and then doubled to \<open>8\<close>, although the pass
  made a new permanent assignment.
\<close>

theorem penalty_despite_assignment:
  "m_trail (mk_solver cs_neg_fail (watches_of cs_neg_fail) 2) = []
   \<and> fst (run (\<lambda>eqs s. s) True (mk_solver cs_neg_fail (watches_of cs_neg_fail) 2,
        mk_probing 100 True False)) = Returned True
   \<and> m_trail (fst (snd (run (\<lambda>eqs s. s) True (mk_solver cs_neg_fail (watches_of cs_neg_fail) 2,
        mk_probing 100 True False)))) = [Lit 0 False]
   \<and> m_num_assigned (snd (snd (run (\<lambda>eqs s. s) True
        (mk_solver cs_neg_fail (watches_of cs_neg_fail) 2, mk_probing 100 True False))))
       = m_num_assigned (mk_probing 100 True False)
   \<and> m_counter (snd (snd (pass_scan (mk_solver cs_neg_fail (watches_of cs_neg_fail) 2,
        mk_probing 100 True False)))) = - 4
   \<and> m_counter (snd (snd (run (\<lambda>eqs s. s) True (mk_solver cs_neg_fail (watches_of cs_neg_fail) 2,
        mk_probing 100 True False)))) = 8"
  by (simp add: pass_scan_def pass_begin_def eval_defs cs_neg_fail_def upt_0_2)

subsection \<open>The cache and the asserted literals\<close>

lemma upt_0_4: "[0..<4] = [0, Suc 0, Suc (Suc 0), Suc (Suc (Suc 0))]"
  by (simp add: upt_rec)

lemma replicate_numeral: "replicate (numeral k) x = x # replicate (pred_numeral k) x"
  by (simp add: numeral_eq_Suc)

lemma list_update_numeral: "(x # xs)[numeral k := y] = x # xs[pred_numeral k := y]"
  by (simp add: numeral_eq_Suc)

lemma unlog_fields [simp]:
  "m_clauses (unlog s) = m_clauses s"
  "m_watches (unlog s) = m_watches s"
  "m_num_vars (unlog s) = m_num_vars s"
  "m_eliminated (unlog s) = m_eliminated s"
  "m_trail (unlog s) = m_trail s"
  "m_scopes (unlog s) = m_scopes s"
  "m_inconsistent (unlog s) = m_inconsistent s"
  "m_is_probing (unlog s) = m_is_probing s"
  "m_drat_enabled (unlog s) = m_drat_enabled s"
  "m_rlimit (unlog s) = m_rlimit s"
  "m_allocation_size (unlog s) = m_allocation_size s"
  "m_drat (unlog s) = []"
  by (simp_all add: unlog_def)

lemma unlog_update [simp]:
  "unlog (s\<lparr>m_drat := d\<rparr>) = unlog s"
  "unlog (s\<lparr>m_trail := t\<rparr>) = (unlog s)\<lparr>m_trail := t\<rparr>"
  "unlog (s\<lparr>m_inconsistent := b\<rparr>) = (unlog s)\<lparr>m_inconsistent := b\<rparr>"
  "unlog (s\<lparr>m_scopes := sc\<rparr>) = (unlog s)\<lparr>m_scopes := sc\<rparr>"
  "unlog (s\<lparr>m_is_probing := b\<rparr>) = (unlog s)\<lparr>m_is_probing := b\<rparr>"
  "unlog (s\<lparr>m_rlimit := k\<rparr>) = (unlog s)\<lparr>m_rlimit := k\<rparr>"
  "unlog (unlog s) = unlog s"
  by (simp_all add: unlog_def)

lemma unlog_queries [simp]:
  "lit_value (unlog s) l = lit_value s l"
  "var_value (unlog s) v = var_value s v"
  "was_eliminated (unlog s) v = was_eliminated s v"
  "inconsistent (unlog s) = inconsistent s"
  "num_vars (unlog s) = num_vars s"
  by (simp_all add: lit_value_def var_value_def was_eliminated_def inconsistent_def num_vars_def)

lemma unlog_push [simp]: "unlog (push s) = push (unlog s)"
  by (simp add: push_def)

lemma unlog_pop [simp]: "unlog (pop n s) = pop n (unlog s)"
  by (induction n s rule: pop.induct) (simp_all add: pop.simps split: list.splits)

lemma unlog_assign_scoped [simp]: "unlog (assign_scoped l s) = assign_scoped l (unlog s)"
  by (simp add: assign_scoped_def split: lbool.splits)

lemma unlog_drat_explain_conflict [simp]: "unlog (drat_explain_conflict s) = unlog s"
  by (simp add: drat_explain_conflict_def)

lemma unlog_propagate_clause: "unlog (propagate_clause c s) = propagate_clause c (unlog s)"
  by (simp add: propagate_clause_def split: list.splits)

lemma unlog_fold_propagate_clause:
  "unlog (fold propagate_clause cs s) = fold propagate_clause cs (unlog s)"
  by (induction cs arbitrary: s) (simp_all add: unlog_propagate_clause)

lemma unlog_propagate_round: "unlog (propagate_round s) = propagate_round (unlog s)"
  by (simp add: propagate_round_def unlog_fold_propagate_clause)

lemma unlog_propagate [simp]: "unlog (propagate s) = propagate (unlog s)"
  unfolding propagate_def
proof (induction s rule: propagate_loop.induct)
  case (1 s)
  have t: "m_trail (propagate_round (unlog s)) = m_trail (propagate_round s)"
    "m_inconsistent (propagate_round (unlog s)) = m_inconsistent (propagate_round s)"
    using unlog_propagate_round [of s, symmetric] by simp_all
  show ?case
  proof (cases "m_inconsistent (propagate_round s)
      \<or> length (m_trail (propagate_round s)) = length (m_trail s)")
    case True
    then show ?thesis
      using t by (subst (1 2) propagate_loop.simps) (auto simp: Let_def unlog_propagate_round)
  next
    case False
    then show ?thesis
      using t "1.IH" [OF refl]
      by (subst (1 2) propagate_loop.simps) (auto simp: Let_def unlog_propagate_round)
  qed
qed

lemma unlog_fold_assign_scoped [simp]:
  "unlog (fold assign_scoped lits s) = fold assign_scoped lits (unlog s)"
  by (induction lits arbitrary: s) simp_all

lemma unlog_checkpoint: "checkpoint (unlog s) = map_option unlog (checkpoint s)"
  by (simp add: checkpoint_def split: option.splits nat.splits)

lemma uncache_fields [simp]:
  "m_stopped_at (uncache p) = m_stopped_at p"
  "m_assigned (uncache p) = m_assigned p"
  "m_to_assert (uncache p) = m_to_assert p"
  "m_probing (uncache p) = m_probing p"
  "m_probing_limit (uncache p) = m_probing_limit p"
  "m_probing_binary (uncache p) = m_probing_binary p"
  "m_probing_cache_limit (uncache p) = m_probing_cache_limit p"
  "m_counter (uncache p) = m_counter p"
  "m_num_assigned (uncache p) = m_num_assigned p"
  "m_equivs (uncache p) = m_equivs p"
  "m_probing_cache (uncache p) = False"
  "m_cached_bins (uncache p) = []"
  by (simp_all add: uncache_def)

lemma uncache_update [simp]:
  "uncache (p\<lparr>m_cached_bins := b\<rparr>) = uncache p"
  "uncache (p\<lparr>m_probing_cache := c\<rparr>) = uncache p"
  "uncache (p\<lparr>m_counter := k\<rparr>) = (uncache p)\<lparr>m_counter := k\<rparr>"
  "uncache (p\<lparr>m_num_assigned := n\<rparr>) = (uncache p)\<lparr>m_num_assigned := n\<rparr>"
  "uncache (p\<lparr>m_to_assert := xs\<rparr>) = (uncache p)\<lparr>m_to_assert := xs\<rparr>"
  "uncache (p\<lparr>m_assigned := A\<rparr>) = (uncache p)\<lparr>m_assigned := A\<rparr>"
  "uncache (p\<lparr>m_stopped_at := v\<rparr>) = (uncache p)\<lparr>m_stopped_at := v\<rparr>"
  "uncache (p\<lparr>m_equivs := e\<rparr>) = (uncache p)\<lparr>m_equivs := e\<rparr>"
  "uncache (uncache p) = uncache p"
  by (simp_all add: uncache_def)

lemma uncache_reset_cache [simp]: "uncache (reset_cache l p) = uncache p"
  by (simp add: reset_cache_def)

lemma cache_bins_blind [simp]:
  "unlog (fst (cache_bins l n (s, p))) = unlog s"
  "uncache (snd (cache_bins l n (s, p))) = uncache p"
  "m_to_assert (snd (cache_bins l n (s, p))) = m_to_assert p"
  "m_num_assigned (snd (cache_bins l n (s, p))) = m_num_assigned p"
  "m_counter (snd (cache_bins l n (s, p))) = m_counter p"
  "m_assigned (snd (cache_bins l n (s, p))) = m_assigned p"
  "m_probing_binary (snd (cache_bins l n (s, p))) = m_probing_binary p"
  "m_trail (fst (cache_bins l n (s, p))) = m_trail s"
  by (simp_all add: cache_bins_def Let_def)

lemma assert_all_blind [simp]:
  "unlog (fst (assert_all l lits (s, p))) = fold assign_scoped lits (unlog s)"
  "uncache (snd (assert_all l lits (s, p)))
     = (uncache p)\<lparr>m_num_assigned := m_num_assigned p + of_nat (length lits)\<rparr>"
  by (simp_all add: assert_all_eq)

lemma probe_unlog:
  "inconsistent (propagate (assign_scoped l (push (unlog s))))
     = inconsistent (propagate (assign_scoped l (push s)))"
proof -
  have "inconsistent (unlog (propagate (assign_scoped l (push s))))
     = inconsistent (propagate (assign_scoped l (push s)))"
    by (rule unlog_queries)
  then show ?thesis by simp
qed

lemma probe_trail_unlog:
  "m_trail (propagate (assign_scoped l (push (unlog s)))) = m_trail (propagate (assign_scoped l (push s)))"
  "m_trail (assign_scoped l (push (unlog s))) = m_trail (assign_scoped l (push s))"
  using unlog_fields(5) [of "propagate (assign_scoped l (push s))"]
    unlog_fields(5) [of "assign_scoped l (push s)"]
  by simp_all

lemma inconsistent_via_unlog: "unlog s = unlog s' \<Longrightarrow> inconsistent s = inconsistent s'"
  by (metis unlog_queries(4))

lemma try_lit_blind:
  "fst (try_lit l True (s, p)) = fst (try_lit l True (unlog s, uncache p))
   \<and> unlog (fst (snd (try_lit l True (s, p)))) = unlog (fst (snd (try_lit l True (unlog s, uncache p))))
   \<and> uncache (snd (snd (try_lit l True (s, p)))) = uncache (snd (snd (try_lit l True (unlog s, uncache p))))"
proof (cases "inconsistent (propagate (assign_scoped l (push s)))")
  case True
  then have "inconsistent (propagate (assign_scoped l (push (unlog s))))"
    by (simp add: probe_unlog)
  then show ?thesis
    using True by (simp add: try_lit_conflict)
next
  case False
  then have nc: "\<not> inconsistent (propagate (assign_scoped l (push (unlog s))))"
    by (simp add: probe_unlog)
  have st: "unlog (fst (snd (try_lit l True (s, p))))
      = unlog (fst (snd (try_lit l True (unlog s, uncache p))))"
    using False nc
    by (simp add: try_lit_no_conflict Let_def case_prod_beta probe_trail_unlog)
  have pr: "uncache (snd (snd (try_lit l True (s, p))))
      = uncache (snd (snd (try_lit l True (unlog s, uncache p))))"
    using False nc
    by (simp add: try_lit_no_conflict Let_def case_prod_beta probe_trail_unlog)
  have ok: "fst (try_lit l True (s0, p0)) = (\<not> inconsistent (fst (snd (try_lit l True (s0, p0)))))"
    if "\<not> inconsistent (propagate (assign_scoped l (push s0)))" for s0 p0
    using that by (simp add: try_lit_no_conflict Let_def case_prod_beta)
  have "fst (try_lit l True (s, p)) = fst (try_lit l True (unlog s, uncache p))"
    using ok [OF False] ok [OF nc] inconsistent_via_unlog [OF st] by simp
  with st pr show ?thesis by simp
qed

lemma try_lit_probing_binary:
  "m_probing_binary (snd (snd (try_lit l u (s, p)))) = m_probing_binary p"
  using try_lit_frame(2) [of l u s p]
  by (cases "try_lit l u (s, p)") (simp add: config_frame_def)

lemma process_core_no_binary:
  assumes "\<not> m_probing_binary p"
    and "\<not> inconsistent (propagate (assign_scoped (Lit v False) (push s)))"
  shows "process_core v (s, p) =
    snd (try_lit (Lit v True) True
      (pop 1 (propagate (assign_scoped (Lit v False) (push s)))
         \<lparr>m_drat := m_drat (fst (cache_bins (Lit v False)
              (length (m_trail (assign_scoped (Lit v False) (push s))))
              (propagate (assign_scoped (Lit v False) (push s)),
               p\<lparr>m_counter := m_counter p - 1,
                  m_assigned := set (drop (length (m_trail (assign_scoped (Lit v False) (push s))))
                      (m_trail (propagate (assign_scoped (Lit v False) (push s)))))\<rparr>)))\<rparr>,
       snd (cache_bins (Lit v False)
              (length (m_trail (assign_scoped (Lit v False) (push s))))
              (propagate (assign_scoped (Lit v False) (push s)),
               p\<lparr>m_counter := m_counter p - 1,
                  m_assigned := set (drop (length (m_trail (assign_scoped (Lit v False) (push s))))
                      (m_trail (propagate (assign_scoped (Lit v False) (push s)))))\<rparr>))))"
proof -
  let ?l = "Lit v False"
  let ?s3 = "propagate (assign_scoped ?l (push s))"
  let ?n = "length (m_trail (assign_scoped ?l (push s)))"
  let ?p2 = "p\<lparr>m_counter := m_counter p - 1, m_assigned := set (drop ?n (m_trail ?s3))\<rparr>"
  have s4: "fst (cache_bins ?l ?n (?s3, ?p2)) = ?s3\<lparr>m_drat := m_drat (fst (cache_bins ?l ?n (?s3, ?p2)))\<rparr>"
    by (simp add: cache_bins_def Let_def)
  have pop: "pop 1 (fst (cache_bins ?l ?n (?s3, ?p2)))
      = (pop 1 ?s3)\<lparr>m_drat := m_drat (fst (cache_bins ?l ?n (?s3, ?p2)))\<rparr>"
    by (subst s4) (simp add: pop.simps)
  have nb: "\<not> m_probing_binary (snd (snd (try_lit (Lit v True) True (s0, snd (cache_bins ?l ?n (?s3, ?p2))))))" for s0
    using assms(1) by (simp add: try_lit_probing_binary)
  show ?thesis
    using assms(2) nb pop
    by (simp add: process_core_no_conflict Let_def case_prod_beta neg_def)
qed

lemma process_core_blind:
  assumes "\<not> m_probing_binary p"
  shows "unlog (fst (process_core v (s, p))) = unlog (fst (process_core v (unlog s, uncache p)))
    \<and> uncache (snd (process_core v (s, p))) = uncache (snd (process_core v (unlog s, uncache p)))"
proof (cases "inconsistent (propagate (assign_scoped (Lit v False) (push s)))")
  case True
  then have "inconsistent (propagate (assign_scoped (Lit v False) (push (unlog s))))"
    by (simp add: probe_unlog)
  then show ?thesis
    using True by (simp add: process_core_conflict)
next
  case False
  then have nc: "\<not> inconsistent (propagate (assign_scoped (Lit v False) (push (unlog s))))"
    by (simp add: probe_unlog)
  have nb: "\<not> m_probing_binary (uncache p)"
    using assms by simp
  define l n where "l = Lit v False" and "n = length (m_trail (assign_scoped (Lit v False) (push s)))"
  define s3 where "s3 = propagate (assign_scoped l (push s))"
  define p2 where "p2 = p\<lparr>m_counter := m_counter p - 1, m_assigned := set (drop n (m_trail s3))\<rparr>"
  define sx px where "sx = (pop 1 s3)\<lparr>m_drat := m_drat (fst (cache_bins l n (s3, p2)))\<rparr>"
    and "px = snd (cache_bins l n (s3, p2))"
  define n' where "n' = length (m_trail (assign_scoped (Lit v False) (push (unlog s))))"
  define s3' where "s3' = propagate (assign_scoped l (push (unlog s)))"
  define p2' where "p2' = (uncache p)\<lparr>m_counter := m_counter (uncache p) - 1,
      m_assigned := set (drop n' (m_trail s3'))\<rparr>"
  define sy py where "sy = (pop 1 s3')\<lparr>m_drat := m_drat (fst (cache_bins l n' (s3', p2')))\<rparr>"
    and "py = snd (cache_bins l n' (s3', p2'))"
  have pc1: "process_core v (s, p) = snd (try_lit (Lit v True) True (sx, px))"
    unfolding sx_def px_def p2_def s3_def n_def l_def
    by (rule process_core_no_binary [OF assms False])
  have pc2: "process_core v (unlog s, uncache p) = snd (try_lit (Lit v True) True (sy, py))"
    unfolding sy_def py_def p2'_def s3'_def n'_def l_def
    by (rule process_core_no_binary [OF nb nc])
  have nn: "n' = n" "m_trail s3' = m_trail s3" "unlog s3 = s3'" "unlog s3' = s3'"
    by (simp_all add: n_def n'_def s3_def s3'_def l_def probe_trail_unlog)
  have e1: "unlog sx = unlog sy"
    by (simp add: sx_def sy_def nn(3,4))
  have e2: "uncache px = uncache py"
    by (simp add: px_def py_def p2_def p2'_def nn)
  show ?thesis
    using try_lit_blind [of "Lit v True" sx px] try_lit_blind [of "Lit v True" sy py] e1 e2
    by (simp add: pc1 pc2)
qed

lemma unlog_eqD:
  assumes "unlog s = unlog s'"
  shows "m_trail s = m_trail s'" "m_scopes s = m_scopes s'" "m_inconsistent s = m_inconsistent s'"
    "inconsistent s = inconsistent s'" "var_value s v = var_value s' v"
    "was_eliminated s v = was_eliminated s' v" "num_vars s = num_vars s'"
    "m_is_probing s = m_is_probing s'" "m_rlimit s = m_rlimit s'"
    "m_allocation_size s = m_allocation_size s'"
proof -
  show "m_trail s = m_trail s'" using assms by (metis unlog_fields(5))
  show "m_scopes s = m_scopes s'" using assms by (metis unlog_fields(6))
  show "m_inconsistent s = m_inconsistent s'" using assms by (metis unlog_fields(7))
  show "inconsistent s = inconsistent s'" using assms by (metis unlog_queries(4))
  show "var_value s v = var_value s' v" using assms by (metis unlog_queries(2))
  show "was_eliminated s v = was_eliminated s' v" using assms by (metis unlog_queries(3))
  show "num_vars s = num_vars s'" using assms by (metis unlog_queries(5))
  show "m_is_probing s = m_is_probing s'" using assms by (metis unlog_fields(8))
  show "m_rlimit s = m_rlimit s'" using assms by (metis unlog_fields(10))
  show "m_allocation_size s = m_allocation_size s'" using assms by (metis unlog_fields(11))
qed

lemma uncache_eqD:
  assumes "uncache p = uncache p'"
  shows "m_stopped_at p = m_stopped_at p'" "m_counter p = m_counter p'"
    "m_num_assigned p = m_num_assigned p'" "m_probing p = m_probing p'"
    "m_probing_limit p = m_probing_limit p'" "m_probing_binary p = m_probing_binary p'"
    "m_equivs p = m_equivs p'"
proof -
  show "m_stopped_at p = m_stopped_at p'" using assms by (metis uncache_fields(1))
  show "m_counter p = m_counter p'" using assms by (metis uncache_fields(8))
  show "m_num_assigned p = m_num_assigned p'" using assms by (metis uncache_fields(9))
  show "m_probing p = m_probing p'" using assms by (metis uncache_fields(4))
  show "m_probing_limit p = m_probing_limit p'" using assms by (metis uncache_fields(5))
  show "m_probing_binary p = m_probing_binary p'" using assms by (metis uncache_fields(6))
  show "m_equivs p = m_equivs p'" using assms by (metis uncache_fields(10))
qed

lemma process_blind:
  assumes "\<not> m_probing_binary p"
  shows "unlog (fst (process v (s, p))) = unlog (fst (process v (unlog s, uncache p)))
    \<and> uncache (snd (process v (s, p))) = uncache (snd (process v (unlog s, uncache p)))"
proof -
  note pc = process_core_blind [OF assms, of v s]
  have n: "m_num_assigned (snd (process_core v (s, p)))
      = m_num_assigned (snd (process_core v (unlog s, uncache p)))"
    using pc by (metis uncache_fields(9))
  show ?thesis
    using pc n by (simp add: process_def Let_def case_prod_beta)
qed

lemma process_cong:
  assumes "\<not> m_probing_binary p" and "unlog s = unlog s'" and "uncache p = uncache p'"
  shows "unlog (fst (process v (s, p))) = unlog (fst (process v (s', p')))"
    and "uncache (snd (process v (s, p))) = uncache (snd (process v (s', p')))"
proof -
  have nb: "\<not> m_probing_binary p'"
    using assms(1) uncache_eqD(6) [OF assms(3)] by simp
  show "unlog (fst (process v (s, p))) = unlog (fst (process v (s', p')))"
    using process_blind [OF assms(1), of v s] process_blind [OF nb, of v s'] assms(2,3) by simp
  show "uncache (snd (process v (s, p))) = uncache (snd (process v (s', p')))"
    using process_blind [OF assms(1), of v s] process_blind [OF nb, of v s'] assms(2,3) by simp
qed

lemma process_probing_binary:
  "m_probing_binary (snd (process v (s, p))) = m_probing_binary p"
  using process_frame [of s p v] by (simp add: frame_def config_frame_def)

lemma scan_cong:
  assumes "\<not> m_probing_binary p" and "unlog s = unlog s'" and "uncache p = uncache p'"
  shows "fst (scan limit num is (s, p)) = fst (scan limit num is (s', p'))
    \<and> unlog (fst (snd (scan limit num is (s, p)))) = unlog (fst (snd (scan limit num is (s', p'))))
    \<and> uncache (snd (snd (scan limit num is (s, p)))) = uncache (snd (snd (scan limit num is (s', p'))))"
  using assms
proof (induction "is" arbitrary: s p s' p')
  case Nil
  then show ?case by simp
next
  case (Cons i rest)
  note se = unlog_eqD [OF Cons.prems(2)]
  note pe = uncache_eqD [OF Cons.prems(3)]
  let ?v = "((m_stopped_at p + i) mod 2 ^ 32) mod num"
  let ?p1 = "if m_probing_cache p
      then reset_cache (Lit ?v True) (reset_cache (Lit ?v False) p) else p"
  let ?p1' = "if m_probing_cache p'
      then reset_cache (Lit ?v True) (reset_cache (Lit ?v False) p') else p'"
  have v: "((m_stopped_at p' + i) mod 2 ^ 32) mod num = ?v"
    using pe(1) by simp
  consider (budget) "m_counter p < limit"
    | (incons) "\<not> m_counter p < limit" "inconsistent s"
    | (skip) "\<not> m_counter p < limit" "\<not> inconsistent s"
        "var_value s ?v \<noteq> l_undef \<or> was_eliminated s ?v"
    | (cancel) "\<not> m_counter p < limit" "\<not> inconsistent s"
        "\<not> (var_value s ?v \<noteq> l_undef \<or> was_eliminated s ?v)" "checkpoint s = None"
    | (go) s1 where "\<not> m_counter p < limit" "\<not> inconsistent s"
        "\<not> (var_value s ?v \<noteq> l_undef \<or> was_eliminated s ?v)" "checkpoint s = Some s1"
    by (cases "checkpoint s") auto
  then show ?case
  proof cases
    case budget
    then have "m_counter p' < limit"
      using pe(2) by simp
    with budget show ?thesis
      using v Cons.prems(2,3) by (simp add: Let_def)
  next
    case incons
    then have "\<not> m_counter p' < limit" "inconsistent s'"
      using pe(2) se(4) by simp_all
    with incons show ?thesis
      using v Cons.prems(2,3) by (simp add: Let_def)
  next
    case skip
    then have c': "\<not> m_counter p' < limit" "\<not> inconsistent s'"
        "var_value s' ?v \<noteq> l_undef \<or> was_eliminated s' ?v"
      using pe(2) se(4) se(5) [of ?v] se(6) [of ?v] by simp_all
    have 1: "scan limit num (i # rest) (s, p) = scan limit num rest (s, ?p1)"
      using skip by (simp add: Let_def)
    have 2: "scan limit num (i # rest) (s', p') = scan limit num rest (s', ?p1')"
      using c' v by (simp add: Let_def)
    have nb: "\<not> m_probing_binary ?p1"
      using Cons.prems(1) by (simp add: reset_cache_def)
    have e: "uncache ?p1 = uncache ?p1'"
      using Cons.prems(3) by simp
    show ?thesis
      unfolding 1 2 by (rule Cons.IH [OF nb Cons.prems(2) e])
  next
    case cancel
    then have c': "\<not> m_counter p' < limit" "\<not> inconsistent s'"
        "\<not> (var_value s' ?v \<noteq> l_undef \<or> was_eliminated s' ?v)" "checkpoint s' = None"
      using pe(2) se(4) se(5) [of ?v] se(6) [of ?v] se(9)
      by (simp_all add: checkpoint_def split: option.splits nat.splits)
    show ?thesis
      using cancel c' v Cons.prems(2,3) by (simp add: Let_def)
  next
    case go
    obtain s1' where s1': "checkpoint s' = Some s1'" "unlog s1 = unlog s1'"
    proof -
      have "map_option unlog (checkpoint s) = map_option unlog (checkpoint s')"
        using unlog_checkpoint [of s] unlog_checkpoint [of s'] Cons.prems(2) by simp
      with go(4) obtain s1' where "checkpoint s' = Some s1'" "unlog s1 = unlog s1'"
        by (cases "checkpoint s'") auto
      then show ?thesis using that by blast
    qed
    have c': "\<not> m_counter p' < limit" "\<not> inconsistent s'"
        "\<not> (var_value s' ?v \<noteq> l_undef \<or> was_eliminated s' ?v)"
      using go pe(2) se(4) se(5) [of ?v] se(6) [of ?v] by simp_all
    have 1: "scan limit num (i # rest) (s, p) = scan limit num rest (process ?v (s1, p))"
      using go by (simp add: Let_def)
    have 2: "scan limit num (i # rest) (s', p') = scan limit num rest (process ?v (s1', p'))"
      using c' s1'(1) v by (simp add: Let_def)
    have nb: "\<not> m_probing_binary (snd (process ?v (s1, p)))"
      using Cons.prems(1) by (simp add: process_probing_binary)
    note pc = process_cong [OF Cons.prems(1) s1'(2) Cons.prems(3), of ?v]
    show ?thesis
      unfolding 1 2
      using Cons.IH [of "snd (process ?v (s1, p))" "fst (process ?v (s1, p))"
          "fst (process ?v (s1', p'))" "snd (process ?v (s1', p'))", OF nb pc]
      by simp
  qed
qed

lemma propagate_cong: "unlog s = unlog s' \<Longrightarrow> unlog (propagate s) = unlog (propagate s')"
  by simp

lemma run_cong:
  assumes "\<not> m_probing_binary p" and "unlog s = unlog s'" and "uncache p = uncache p'"
  shows "fst (run elim force (s, p)) = fst (run elim force (s', p'))
    \<and> unlog (fst (snd (run elim force (s, p)))) = unlog (fst (snd (run elim force (s', p'))))
    \<and> uncache (snd (snd (run elim force (s, p)))) = uncache (snd (snd (run elim force (s', p'))))"
proof -
  note pe = uncache_eqD [OF assms(3)]
  note pp = propagate_cong [OF assms(2)]
  note se = unlog_eqD [OF pp]
  have runs: "pass_runs force (s, p) = pass_runs force (s', p')"
    using pe(2,4) se(4) by (simp add: pass_runs_def)
  show ?thesis
  proof (cases "pass_runs force (s, p)")
    case False
    then show ?thesis
      using runs pe(4) pp assms(2,3) by (simp add: run_skipped)
  next
    case True
    then have True': "pass_runs force (s', p')"
      using runs by simp
    obtain s2 p2 where b: "pass_begin (s, p) = (s2, p2)"
      by (cases "pass_begin (s, p)") auto
    obtain s2' p2' where b': "pass_begin (s', p') = (s2', p2')"
      by (cases "pass_begin (s', p')") auto
    have e: "unlog s2 = unlog s2'" "uncache p2 = uncache p2'" "\<not> m_probing_binary p2"
      using b b' pp assms(1,3) by (auto simp: pass_begin_def split: if_splits)
    have lim: "m_probing_limit p' = m_probing_limit p" "num_vars s' = num_vars s"
      using pe(5) unlog_eqD(7) [OF assms(2)] by simp_all
    obtain out s3 p3 where sc: "pass_scan (s, p) = (out, s3, p3)"
      by (cases "pass_scan (s, p)") auto
    obtain out' s3' p3' where sc': "pass_scan (s', p') = (out', s3', p3')"
      by (cases "pass_scan (s', p')") auto
    have r: "out = out'" "unlog s3 = unlog s3'" "uncache p3 = uncache p3'"
      using scan_cong [OF e(3) e(1) e(2), of "- sint (m_probing_limit p)" "num_vars s" "[0..<num_vars s]"]
        sc sc' b b' lim
      by (simp_all add: pass_scan_def)
    note p3e = uncache_eqD [OF r(3)]
    note s0e = unlog_eqD [OF assms(2)]
    show ?thesis
    proof (cases out)
      case Canceled
      then show ?thesis
        using run_canceled [OF True, of s3 p3 elim] run_canceled [OF True', of s3' p3' elim]
          sc sc' r s0e(8)
        by simp
    next
      case (Returned b)
      then show ?thesis
        using run_returned [OF True, of b s3 p3 elim] run_returned [OF True', of b s3' p3' elim]
          sc sc' r s0e(8) p3e(1,2,3) pe(3)
        by (simp add: finalize_def)
    qed
  qed
qed

text \<open>
  With binary-neighbour probing off, \<open>try_lit\<close> is only called
  with \<open>updt_cache = true\<close>, so the cache is written and never read: for every solver
  and every probing object, an invocation of the driver with the cache enabled and
  one with the cache disabled return the same result and leave the same solver, up
  to the proof log (the same trail, hence the same asserted literals), with the same
  count of forced assignments, cost counter and cursor.
\<close>

theorem cache_unread_without_binary_probing:
  assumes "\<not> m_probing_binary p"
  shows "(let on = run elim force (s, p\<lparr>m_probing_cache := True\<rparr>);
              off = run elim force (s, p\<lparr>m_probing_cache := False\<rparr>)
          in fst on = fst off
             \<and> m_trail (fst (snd on)) = m_trail (fst (snd off))
             \<and> m_inconsistent (fst (snd on)) = m_inconsistent (fst (snd off))
             \<and> m_scopes (fst (snd on)) = m_scopes (fst (snd off))
             \<and> (fst (snd on))\<lparr>m_drat := []\<rparr> = (fst (snd off))\<lparr>m_drat := []\<rparr>
             \<and> m_num_assigned (snd (snd on)) = m_num_assigned (snd (snd off))
             \<and> m_counter (snd (snd on)) = m_counter (snd (snd off))
             \<and> m_stopped_at (snd (snd on)) = m_stopped_at (snd (snd off)))"
proof -
  have nb: "\<not> m_probing_binary (p\<lparr>m_probing_cache := True\<rparr>)"
    using assms by simp
  have e: "uncache (p\<lparr>m_probing_cache := True\<rparr>) = uncache (p\<lparr>m_probing_cache := False\<rparr>)"
    by simp
  note c = run_cong [OF nb refl e, of elim force s]
  note se = unlog_eqD [OF c [THEN conjunct2, THEN conjunct1]]
  note pe = uncache_eqD [OF c [THEN conjunct2, THEN conjunct2]]
  show ?thesis
    using c se(1,2,3) pe(1,2,3) by (simp add: Let_def unlog_def)
qed

theorem cache_unread_without_binary_probing_witness:
  "\<not> m_probing_binary (mk_probing 100 True False)
   \<and> fst (run (\<lambda>eqs s. s) True (mk_solver cs_fail (watches_of cs_fail) 2,
        (mk_probing 100 True False)\<lparr>m_probing_cache := True\<rparr>)) = Returned True
   \<and> fst (run (\<lambda>eqs s. s) True (mk_solver cs_fail (watches_of cs_fail) 2,
        (mk_probing 100 True False)\<lparr>m_probing_cache := False\<rparr>)) = Returned True
   \<and> m_trail (fst (snd (run (\<lambda>eqs s. s) True (mk_solver cs_fail (watches_of cs_fail) 2,
        (mk_probing 100 True False)\<lparr>m_probing_cache := True\<rparr>)))) = [Lit 0 True]
   \<and> m_trail (fst (snd (run (\<lambda>eqs s. s) True (mk_solver cs_fail (watches_of cs_fail) 2,
        (mk_probing 100 True False)\<lparr>m_probing_cache := False\<rparr>)))) = [Lit 0 True]"
proof -
  have h: "\<not> m_probing_binary (mk_probing 100 True False)"
    by (simp add: mk_probing_def)
  have a: "fst (run (\<lambda>eqs s. s) True (mk_solver cs_fail (watches_of cs_fail) 2,
        (mk_probing 100 True False)\<lparr>m_probing_cache := True\<rparr>)) = Returned True"
    by (simp add: eval_defs cs_fail_def upt_0_2)
  have b: "m_trail (fst (snd (run (\<lambda>eqs s. s) True (mk_solver cs_fail (watches_of cs_fail) 2,
        (mk_probing 100 True False)\<lparr>m_probing_cache := True\<rparr>)))) = [Lit 0 True]"
    by (simp add: eval_defs cs_fail_def upt_0_2)
  show ?thesis
    using h a b
      cache_unread_without_binary_probing [OF h, of "\<lambda>eqs s. s" True
        "mk_solver cs_fail (watches_of cs_fail) 2"]
    by (simp add: Let_def)
qed

text \<open>
  The budget does depend on the cache: a neighbour that is looked up is free, one that is
  probed costs a unit. Formula \<open>x0 \<or> x3\<close>, \<open>\<not>x1 \<or> x2\<close>, \<open>\<not>x1 \<or> \<not>x2\<close>, cursor at \<open>x3\<close>,
  budget \<open>4\<close>: the variables are visited in the order \<open>x3, x0, x1, x2\<close>. At \<open>x0\<close> the
  neighbour \<open>x3\<close> is looked up when the cache is enabled and probed when it is disabled.
  With the cache the pass goes on to \<open>x1\<close>, whose positive probe fails, and asserts
  \<open>\<not>x1\<close>; without it the budget is exhausted before \<open>x1\<close>, the pass is cut short and
  resumes at \<open>x1\<close> in the next invocation.
\<close>

theorem budget_cut_depends_on_cache:
  "m_trail (fst (snd (run (\<lambda>eqs s. s) True
       (mk_solver cs_budget (watches_of cs_budget) 4, budget_probing True)))) = [Lit 1 True]
   \<and> fst (run (\<lambda>eqs s. s) True
       (mk_solver cs_budget (watches_of cs_budget) 4, budget_probing True)) = Returned True
   \<and> m_trail (fst (snd (run (\<lambda>eqs s. s) True
       (mk_solver cs_budget (watches_of cs_budget) 4, budget_probing False)))) = []
   \<and> fst (run (\<lambda>eqs s. s) True
       (mk_solver cs_budget (watches_of cs_budget) 4, budget_probing False)) = Returned False
   \<and> m_stopped_at (snd (snd (run (\<lambda>eqs s. s) True
       (mk_solver cs_budget (watches_of cs_budget) 4, budget_probing False)))) = 1"
  by (simp add: eval_defs cs_budget_def budget_probing_def upt_0_4 replicate_numeral
      list_update_numeral)

subsection \<open>Unit propagation computes the closure\<close>

lemma neg_neg [simp]: "neg (neg l) = l"
  by (simp add: neg_def)

lemma neg_neq [simp]: "neg l \<noteq> l" "l \<noteq> neg l"
  by (cases l; simp add: neg_def)+

lemma neg_eq_iff [simp]: "neg a = neg b \<longleftrightarrow> a = b"
  by (metis neg_neg)

lemma unit_implied_mono:
  assumes "A \<subseteq> B"
  shows "unit_implied C A \<subseteq> unit_implied C B"
proof
  fix x
  assume "x \<in> unit_implied C A"
  then show "x \<in> unit_implied C B"
  proof (induction rule: unit_implied.induct)
    case (given x)
    then show ?case
      using assms by (auto intro: unit_implied.given)
  next
    case (unit c x)
    then show ?case
      by (auto intro: unit_implied.unit)
  qed
qed

lemma unit_implied_closure:
  assumes "A \<subseteq> unit_implied C B"
  shows "unit_implied C A \<subseteq> unit_implied C B"
proof
  fix x
  assume "x \<in> unit_implied C A"
  then show "x \<in> unit_implied C B"
  proof (induction rule: unit_implied.induct)
    case (given x)
    then show ?case
      using assms by auto
  next
    case (unit c x)
    then show ?case
      by (auto intro: unit_implied.unit)
  qed
qed

lemma unit_implied_extensive: "A \<subseteq> unit_implied C A"
  by (auto intro: unit_implied.given)

lemma falsified_mono: "falsified C S \<Longrightarrow> S \<subseteq> T \<Longrightarrow> falsified C T"
  unfolding falsified_def by blast

text \<open>One clause: what \<open>propagate_clause\<close> can do.\<close>

lemma propagate_clause_cases:
  obtains (same) "propagate_clause c s = s"
  | (unit) u where "propagate_clause c s = s\<lparr>m_trail := m_trail s @ [u]\<rparr>"
      "\<not> m_inconsistent s" "u \<in> set c" "lit_value s u = l_undef"
      "\<forall>y \<in> set c. y \<noteq> u \<longrightarrow> neg y \<in> set (m_trail s)"
  | (conflict) "propagate_clause c s = s\<lparr>m_inconsistent := True\<rparr>"
      "\<not> m_inconsistent s" "\<forall>y \<in> set c. neg y \<in> set (m_trail s)"
proof (cases "m_inconsistent s \<or> list_ex (\<lambda>l. lit_value s l = l_true) c")
  case True
  then have "propagate_clause c s = s"
    by (auto simp: propagate_clause_def)
  then show ?thesis by (rule same)
next
  case False
  then have nt: "\<not> m_inconsistent s" "\<forall>y \<in> set c. lit_value s y \<noteq> l_true"
    by (auto simp: list_ex_iff)
  have val: "lit_value s y = l_undef \<or> neg y \<in> set (m_trail s)" if "y \<in> set c" for y
    using nt(2) that by (auto simp: lit_value_def split: if_splits)
  show ?thesis
  proof (cases "remdups (filter (\<lambda>l. lit_value s l = l_undef) c)")
    case Nil
    then have "filter (\<lambda>l. lit_value s l = l_undef) c = []"
      by (metis remdups_eq_nil_iff)
    then have "\<forall>y \<in> set c. lit_value s y \<noteq> l_undef"
      by (simp add: filter_empty_conv)
    then have "\<forall>y \<in> set c. neg y \<in> set (m_trail s)"
      using val by blast
    moreover have "propagate_clause c s = s\<lparr>m_inconsistent := True\<rparr>"
      using False Nil by (simp add: propagate_clause_def)
    ultimately show ?thesis
      using nt(1) by (intro conflict)
  next
    case (Cons u rest)
    show ?thesis
    proof (cases rest)
      case Nil
      have s: "set (filter (\<lambda>l. lit_value s l = l_undef) c) = {u}"
        using Cons Nil by (metis list.set(1) list.simps(15) set_remdups)
      then have u: "u \<in> set c" "lit_value s u = l_undef"
        by auto
      have "neg y \<in> set (m_trail s)" if "y \<in> set c" "y \<noteq> u" for y
      proof -
        have "lit_value s y \<noteq> l_undef"
          using s that by auto
        then show ?thesis
          using val that by blast
      qed
      moreover have "propagate_clause c s = s\<lparr>m_trail := m_trail s @ [u]\<rparr>"
        using False Cons Nil by (simp add: propagate_clause_def)
      ultimately show ?thesis
        using nt(1) u by (intro unit) auto
    next
      case (Cons u' rest')
      then have "propagate_clause c s = s"
        using False \<open>remdups (filter (\<lambda>l. lit_value s l = l_undef) c) = u # rest\<close>
        by (simp add: propagate_clause_def)
      then show ?thesis by (rule same)
    qed
  qed
qed

lemma lit_value_false_iff:
  "neg y \<in> set (m_trail s) \<Longrightarrow> lit_value s y \<noteq> l_undef"
  by (simp add: lit_value_def)

lemma lit_value_undef_iff:
  "lit_value s y = l_undef \<longleftrightarrow> y \<notin> set (m_trail s) \<and> neg y \<notin> set (m_trail s)"
  by (simp add: lit_value_def)

text \<open>Soundness of a round: what goes on the trail is implied, a conflict is a falsified clause.\<close>

lemma propagate_clause_sound:
  assumes "c \<in> set C" and "set (m_trail s) \<subseteq> unit_implied C A"
  shows "set (m_trail (propagate_clause c s)) \<subseteq> unit_implied C A"
proof (cases rule: propagate_clause_cases [of c s])
  case same
  then show ?thesis using assms by simp
next
  case (unit u)
  have "u \<in> unit_implied C A"
    using assms unit(3,5) by (intro unit_implied.unit [of c]) auto
  then show ?thesis
    using assms unit(1) by simp
next
  case conflict
  then show ?thesis using assms by simp
qed

lemma propagate_clause_conflict:
  assumes "c \<in> set C" and "set (m_trail s) \<subseteq> T"
    and "\<not> m_inconsistent s" and "m_inconsistent (propagate_clause c s)"
  shows "falsified C T"
proof (cases rule: propagate_clause_cases [of c s])
  case same
  then show ?thesis using assms by simp
next
  case (unit u)
  then show ?thesis using assms by simp
next
  case conflict
  then show ?thesis
    using assms unfolding falsified_def by blast
qed

lemma fold_propagate_clause_sound:
  assumes "set cs \<subseteq> set C" and "set (m_trail s) \<subseteq> unit_implied C A"
  shows "set (m_trail (fold propagate_clause cs s)) \<subseteq> unit_implied C A"
  using assms
proof (induction cs arbitrary: s)
  case Nil
  then show ?case by simp
next
  case (Cons c cs)
  have "set (m_trail (propagate_clause c s)) \<subseteq> unit_implied C A"
    using Cons.prems by (intro propagate_clause_sound) auto
  then show ?case
    using Cons.IH [of "propagate_clause c s"] Cons.prems by simp
qed

lemma fold_propagate_clause_conflict:
  assumes "set cs \<subseteq> set C" and "set (m_trail s) \<subseteq> unit_implied C A"
    and "\<not> m_inconsistent s" and "m_inconsistent (fold propagate_clause cs s)"
  shows "falsified C (unit_implied C A)"
  using assms
proof (induction cs arbitrary: s)
  case Nil
  then show ?case by simp
next
  case (Cons c cs)
  show ?case
  proof (cases "m_inconsistent (propagate_clause c s)")
    case True
    then show ?thesis
      using Cons.prems by (intro propagate_clause_conflict [of c C s]) auto
  next
    case False
    have "set (m_trail (propagate_clause c s)) \<subseteq> unit_implied C A"
      using Cons.prems by (intro propagate_clause_sound) auto
    then show ?thesis
      using Cons.IH [of "propagate_clause c s"] Cons.prems False by simp
  qed
qed

lemma propagate_sound_gen:
  "set (m_trail s) \<subseteq> unit_implied (m_clauses s) A
   \<Longrightarrow> set (m_trail (propagate s)) \<subseteq> unit_implied (m_clauses s) A"
  unfolding propagate_def
proof (induction s rule: propagate_loop.induct)
  case (1 s)
  have r: "set (m_trail (propagate_round s)) \<subseteq> unit_implied (m_clauses s) A"
    unfolding propagate_round_def using "1.prems" by (intro fold_propagate_clause_sound) auto
  show ?case
  proof (cases "m_inconsistent (propagate_round s)
      \<or> length (m_trail (propagate_round s)) = length (m_trail s)")
    case True
    then have "propagate_loop s = propagate_round s"
      by (subst propagate_loop.simps) (simp add: Let_def)
    with r show ?thesis by simp
  next
    case False
    then have "propagate_loop s = propagate_loop (propagate_round s)"
      by (subst propagate_loop.simps) (simp add: Let_def)
    then show ?thesis
      using False "1.IH" [OF refl] r by simp
  qed
qed

lemma propagate_sound:
  "set (m_trail (propagate s)) \<subseteq> unit_implied (m_clauses s) (set (m_trail s))"
  by (rule propagate_sound_gen) (rule unit_implied_extensive)

lemma propagate_conflict_gen:
  "set (m_trail s) \<subseteq> unit_implied (m_clauses s) A \<Longrightarrow> \<not> m_inconsistent s
   \<Longrightarrow> m_inconsistent (propagate s) \<Longrightarrow> falsified (m_clauses s) (unit_implied (m_clauses s) A)"
  unfolding propagate_def
proof (induction s rule: propagate_loop.induct)
  case (1 s)
  have r: "set (m_trail (propagate_round s)) \<subseteq> unit_implied (m_clauses s) A"
    unfolding propagate_round_def using "1.prems" by (intro fold_propagate_clause_sound) auto
  show ?case
  proof (cases "m_inconsistent (propagate_round s)")
    case True
    then show ?thesis
      using "1.prems" fold_propagate_clause_conflict [of "m_clauses s" "m_clauses s" s A]
      by (simp add: propagate_round_def)
  next
    case ninc: False
    show ?thesis
    proof (cases "length (m_trail (propagate_round s)) = length (m_trail s)")
      case True
      then have "propagate_loop s = propagate_round s"
        by (subst propagate_loop.simps) (simp add: Let_def)
      then show ?thesis
        using ninc "1.prems" by simp
    next
      case False
      then have "propagate_loop s = propagate_loop (propagate_round s)"
        using ninc by (subst propagate_loop.simps) (simp add: Let_def)
      then show ?thesis
        using False ninc "1.IH" [OF refl] r "1.prems" by simp
    qed
  qed
qed

text \<open>The trail stays free of complementary literals.\<close>

lemma trail_ok_propagate_clause: "trail_ok s \<Longrightarrow> trail_ok (propagate_clause c s)"
proof (cases rule: propagate_clause_cases [of c s])
  case same
  assume "trail_ok s"
  then show ?thesis using same by simp
next
  case (unit u)
  assume "trail_ok s"
  then show ?thesis
    using unit(1,4) by (auto simp: trail_ok_def lit_value_undef_iff)
next
  case conflict
  assume "trail_ok s"
  then show ?thesis using conflict by (simp add: trail_ok_def)
qed

lemma trail_ok_fold_propagate_clause: "trail_ok s \<Longrightarrow> trail_ok (fold propagate_clause cs s)"
  by (induction cs arbitrary: s) (simp_all add: trail_ok_propagate_clause)

lemma trail_ok_propagate: "trail_ok s \<Longrightarrow> trail_ok (propagate s)"
  unfolding propagate_def
proof (induction s rule: propagate_loop.induct)
  case (1 s)
  have r: "trail_ok (propagate_round s)"
    using "1.prems" by (simp add: propagate_round_def trail_ok_fold_propagate_clause)
  show ?case
  proof (cases "m_inconsistent (propagate_round s)
      \<or> length (m_trail (propagate_round s)) = length (m_trail s)")
    case True
    then have "propagate_loop s = propagate_round s"
      by (subst propagate_loop.simps) (simp add: Let_def)
    with r show ?thesis by simp
  next
    case False
    then have "propagate_loop s = propagate_loop (propagate_round s)"
      by (subst propagate_loop.simps) (simp add: Let_def)
    then show ?thesis
      using False "1.IH" [OF refl _ r] by simp
  qed
qed

lemma trail_ok_assign_scoped: "trail_ok s \<Longrightarrow> trail_ok (assign_scoped l s)"
  by (auto simp: trail_ok_def assign_scoped_def lit_value_undef_iff split: lbool.splits)

lemma trail_ok_fold_assign_scoped: "trail_ok s \<Longrightarrow> trail_ok (fold assign_scoped lits s)"
  by (induction lits arbitrary: s) (simp_all add: trail_ok_assign_scoped)

lemma trail_ok_push [simp]: "trail_ok (push s) = trail_ok s"
  by (simp add: trail_ok_def)

lemma trail_ok_pop: "trail_ok s \<Longrightarrow> trail_ok (pop n s)"
proof (induction n s rule: pop.induct)
  case (1 s)
  then show ?case by (simp add: pop.simps)
next
  case (2 n s)
  show ?case
  proof (cases "m_scopes s")
    case Nil
    then show ?thesis using "2.prems" by (simp add: pop.simps)
  next
    case (Cons sz rest)
    have "trail_ok (s\<lparr>m_trail := take sz (m_trail s), m_scopes := rest, m_inconsistent := False\<rparr>)"
      using "2.prems" by (auto simp: trail_ok_def dest: in_set_takeD)
    then show ?thesis
      using Cons "2.IH" [OF Cons] by (simp add: pop.simps)
  qed
qed

lemma trail_ok_drat [simp]:
  "trail_ok (s\<lparr>m_drat := d\<rparr>) = trail_ok s"
  "trail_ok (drat_explain_conflict s) = trail_ok s"
  by (simp_all add: trail_ok_def)

text \<open>The result of propagation is stable under a further round.\<close>

lemma propagate_clause_progress:
  "length (m_trail s) \<le> length (m_trail (propagate_clause c s))"
  "m_inconsistent s \<Longrightarrow> m_inconsistent (propagate_clause c s)"
  by (cases rule: propagate_clause_cases [of c s]; simp)+

lemma fold_propagate_clause_progress:
  "length (m_trail s) \<le> length (m_trail (fold propagate_clause cs s))"
  "m_inconsistent s \<Longrightarrow> m_inconsistent (fold propagate_clause cs s)"
proof (induction cs arbitrary: s)
  case Nil
  {
    case 1 show ?case by simp
  next
    case 2 then show ?case by simp
  }
next
  case (Cons c cs)
  {
    case 1
    show ?case
      using Cons.IH(1) [of "propagate_clause c s"] propagate_clause_progress(1) [of s c]
      by simp
  next
    case 2
    then show ?case
      using Cons.IH(2) [of "propagate_clause c s"] propagate_clause_progress(2) [of s c]
      by simp
  }
qed

lemma fold_propagate_clause_fixed:
  assumes "fold propagate_clause cs s = s" and "c \<in> set cs"
  shows "propagate_clause c s = s"
  using assms
proof (induction cs)
  case Nil
  then show ?case by simp
next
  case (Cons d cs)
  have d: "propagate_clause d s = s"
  proof (cases rule: propagate_clause_cases [of d s])
    case same
    then show ?thesis .
  next
    case (unit u)
    have "length (m_trail (propagate_clause d s)) \<le> length (m_trail s)"
      using fold_propagate_clause_progress(1) [of "propagate_clause d s" cs] Cons.prems(1)
      by simp
    then show ?thesis
      using unit(1) by simp
  next
    case conflict
    have "m_inconsistent s"
      using fold_propagate_clause_progress(2) [of "propagate_clause d s" cs] Cons.prems(1)
        conflict(1) by simp
    then show ?thesis
      using conflict(2) by simp
  qed
  then show ?case
    using Cons by auto
qed

lemma fold_propagate_clause_inconsistent:
  "m_inconsistent s \<Longrightarrow> fold propagate_clause cs s = s"
  by (induction cs) (simp_all add: propagate_clause_def)

lemma propagate_round_same_length:
  assumes "length (m_trail (propagate_round s)) = length (m_trail s)"
    and "\<not> m_inconsistent (propagate_round s)"
  shows "propagate_round s = s"
proof -
  obtain t b where r: "propagate_round s = s\<lparr>m_trail := t, m_inconsistent := b\<rparr>"
    unfolding propagate_round_def using fold_propagate_clause_frame by blast
  obtain us where us: "m_trail (propagate_round s) = m_trail s @ us"
    using propagate_round_trail by blast
  have "t = m_trail s"
    using assms(1) us r by simp
  moreover have "\<not> m_inconsistent s"
    using assms(2) fold_propagate_clause_progress(2) [of s "m_clauses s"]
    by (auto simp: propagate_round_def)
  moreover have "\<not> b"
    using assms(2) r by simp
  ultimately show ?thesis
    using r by simp
qed

lemma propagate_round_propagate: "propagate_round (propagate s) = propagate s"
  unfolding propagate_def
proof (induction s rule: propagate_loop.induct)
  case (1 s)
  show ?case
  proof (cases "m_inconsistent (propagate_round s)")
    case True
    then have "propagate_loop s = propagate_round s"
      by (subst propagate_loop.simps) (simp add: Let_def)
    then show ?thesis
      using True by (simp add: propagate_round_def fold_propagate_clause_inconsistent)
  next
    case ninc: False
    show ?thesis
    proof (cases "length (m_trail (propagate_round s)) = length (m_trail s)")
      case True
      then have "propagate_loop s = propagate_round s"
        by (subst propagate_loop.simps) (simp add: Let_def)
      then show ?thesis
        using propagate_round_same_length [OF True ninc] by simp
    next
      case False
      then have "propagate_loop s = propagate_loop (propagate_round s)"
        using ninc by (subst propagate_loop.simps) (simp add: Let_def)
      then show ?thesis
        using False ninc "1.IH" [OF refl] by simp
    qed
  qed
qed

lemma propagate_stable: "propagate_round s = s \<Longrightarrow> propagate s = s"
  unfolding propagate_def by (subst propagate_loop.simps) (simp add: Let_def)

lemma propagate_idem [simp]: "propagate (propagate s) = propagate s"
  by (rule propagate_stable) (rule propagate_round_propagate)

text \<open>Completeness: a stable state without conflict holds all that is implied.\<close>

lemma stable_clause:
  assumes "propagate_round s = s" and "\<not> m_inconsistent s" and "c \<in> set (m_clauses s)"
    and "trail_ok s"
  shows "(\<exists>z \<in> set c. z \<in> set (m_trail s))
    \<or> (\<exists>a \<in> set c. \<exists>b \<in> set c. a \<noteq> b \<and> lit_value s a = l_undef \<and> lit_value s b = l_undef)"
proof -
  have fixed: "propagate_clause c s = s"
    using assms(1,3) fold_propagate_clause_fixed [of "m_clauses s" s c]
    by (simp add: propagate_round_def)
  show ?thesis
  proof (cases "list_ex (\<lambda>l. lit_value s l = l_true) c")
    case True
    then show ?thesis
      by (auto simp: list_ex_iff lit_value_def split: if_splits)
  next
    case False
    show ?thesis
    proof (cases "remdups (filter (\<lambda>l. lit_value s l = l_undef) c)")
      case Nil
      then have "propagate_clause c s = s\<lparr>m_inconsistent := True\<rparr>"
        using False assms(2) by (simp add: propagate_clause_def)
      then have "m_inconsistent s"
        using fixed by (metis solver.select_convs(7) solver.surjective solver.update_convs(7))
      then show ?thesis using assms(2) by simp
    next
      case (Cons a rest)
      show ?thesis
      proof (cases rest)
        case Nil
        then have "propagate_clause c s = s\<lparr>m_trail := m_trail s @ [a]\<rparr>"
          using False assms(2) Cons by (simp add: propagate_clause_def)
        then have "m_trail s = m_trail s @ [a]"
          using fixed by (metis solver.select_convs(5) solver.surjective solver.update_convs(5))
        then show ?thesis by simp
      next
        case (Cons b rest')
        have d: "distinct (a # b # rest')" and
          m: "set (a # b # rest') = set (filter (\<lambda>l. lit_value s l = l_undef) c)"
          using \<open>remdups (filter (\<lambda>l. lit_value s l = l_undef) c) = a # rest\<close> Cons
          by (metis distinct_remdups, metis set_remdups)
        have "a \<in> set c \<and> lit_value s a = l_undef" "b \<in> set c \<and> lit_value s b = l_undef"
          using m by auto
        moreover have "a \<noteq> b"
          using d by simp
        ultimately show ?thesis by blast
      qed
    qed
  qed
qed

lemma stable_closed:
  assumes "propagate_round s = s" and "\<not> m_inconsistent s" and "trail_ok s"
  shows "unit_implied (m_clauses s) (set (m_trail s)) \<subseteq> set (m_trail s)"
proof
  fix x
  assume "x \<in> unit_implied (m_clauses s) (set (m_trail s))"
  then show "x \<in> set (m_trail s)"
  proof (induction rule: unit_implied.induct)
    case (given x)
    then show ?case .
  next
    case (unit c x)
    then have others: "\<forall>y \<in> set c. y \<noteq> x \<longrightarrow> neg y \<in> set (m_trail s)"
      by blast
    from stable_clause [OF assms(1,2) unit(1) assms(3)] show ?case
    proof
      assume "\<exists>z \<in> set c. z \<in> set (m_trail s)"
      then obtain z where z: "z \<in> set c" "z \<in> set (m_trail s)"
        by blast
      show ?thesis
      proof (cases "z = x")
        case True
        then show ?thesis using z by simp
      next
        case False
        then have "neg z \<in> set (m_trail s)"
          using others z by blast
        then show ?thesis
          using assms(3) z by (auto simp: trail_ok_def)
      qed
    next
      assume "\<exists>a \<in> set c. \<exists>b \<in> set c. a \<noteq> b \<and> lit_value s a = l_undef \<and> lit_value s b = l_undef"
      then obtain a b where ab: "a \<in> set c" "b \<in> set c" "a \<noteq> b"
        "lit_value s a = l_undef" "lit_value s b = l_undef"
        by blast
      then have "a \<noteq> x \<or> b \<noteq> x"
        by auto
      then show ?thesis
        using ab others by (auto simp: lit_value_undef_iff)
    qed
  qed
qed

lemma stable_not_falsified:
  assumes "propagate_round s = s" and "\<not> m_inconsistent s" and "trail_ok s"
  shows "\<not> falsified (m_clauses s) (set (m_trail s))"
proof
  assume "falsified (m_clauses s) (set (m_trail s))"
  then obtain c where c: "c \<in> set (m_clauses s)" "\<forall>y \<in> set c. neg y \<in> set (m_trail s)"
    unfolding falsified_def by blast
  from stable_clause [OF assms(1,2) c(1) assms(3)] show False
  proof
    assume "\<exists>z \<in> set c. z \<in> set (m_trail s)"
    then show False
      using c(2) assms(3) by (auto simp: trail_ok_def)
  next
    assume "\<exists>a \<in> set c. \<exists>b \<in> set c. a \<noteq> b \<and> lit_value s a = l_undef \<and> lit_value s b = l_undef"
    then show False
      using c(2) by (auto simp: lit_value_undef_iff)
  qed
qed

text \<open>Propagation computes the implied literals, and finds a conflict exactly when they
  falsify a clause.\<close>

lemma propagate_complete:
  assumes "trail_ok s" and "\<not> m_inconsistent (propagate s)"
  shows "set (m_trail (propagate s)) = unit_implied (m_clauses s) (set (m_trail s))"
    and "\<not> falsified (m_clauses s) (unit_implied (m_clauses s) (set (m_trail s)))"
proof -
  let ?s' = "propagate s"
  have ok: "trail_ok ?s'"
    using assms(1) by (rule trail_ok_propagate)
  have closed: "unit_implied (m_clauses s) (set (m_trail ?s')) \<subseteq> set (m_trail ?s')"
    using stable_closed [OF propagate_round_propagate assms(2) ok] by simp
  have "set (m_trail s) \<subseteq> set (m_trail ?s')"
    using propagate_trail [of s] by auto
  then have "unit_implied (m_clauses s) (set (m_trail s)) \<subseteq> set (m_trail ?s')"
    using unit_implied_mono closed by blast
  then show eq: "set (m_trail ?s') = unit_implied (m_clauses s) (set (m_trail s))"
    using propagate_sound [of s] by blast
  show "\<not> falsified (m_clauses s) (unit_implied (m_clauses s) (set (m_trail s)))"
    using stable_not_falsified [OF propagate_round_propagate assms(2) ok] eq by simp
qed

lemma propagate_inconsistent_iff:
  assumes "trail_ok s" and "\<not> m_inconsistent s"
  shows "m_inconsistent (propagate s)
    \<longleftrightarrow> falsified (m_clauses s) (unit_implied (m_clauses s) (set (m_trail s)))"
  using propagate_complete(2) [OF assms(1)]
    propagate_conflict_gen [OF unit_implied_extensive assms(2)]
  by blast

lemma lit_at_index [simp]: "lit_at (index l) = l"
  by (cases l) (simp add: lit_at_def index_def)

lemma index_lit_at [simp]: "index (lit_at i) = i"
  by (simp add: lit_at_def index_def)

text \<open>The trail that propagation adds is new.\<close>

lemma propagate_clause_fresh:
  "\<exists>us. m_trail (propagate_clause c s) = m_trail s @ us \<and> set us \<inter> set (m_trail s) = {}"
  by (cases rule: propagate_clause_cases [of c s]) (auto simp: lit_value_undef_iff)

lemma fold_propagate_clause_fresh:
  "\<exists>us. m_trail (fold propagate_clause cs s) = m_trail s @ us \<and> set us \<inter> set (m_trail s) = {}"
proof (induction cs arbitrary: s)
  case Nil
  then show ?case by simp
next
  case (Cons c cs)
  obtain us where us: "m_trail (propagate_clause c s) = m_trail s @ us"
    "set us \<inter> set (m_trail s) = {}"
    using propagate_clause_fresh by blast
  obtain vs where vs:
    "m_trail (fold propagate_clause cs (propagate_clause c s)) = m_trail (propagate_clause c s) @ vs"
    "set vs \<inter> set (m_trail (propagate_clause c s)) = {}"
    using Cons.IH by blast
  have "m_trail (fold propagate_clause (c # cs) s) = m_trail s @ (us @ vs)"
    using us vs by simp
  moreover have "set (us @ vs) \<inter> set (m_trail s) = {}"
    using us vs by auto
  ultimately show ?case by blast
qed

lemma propagate_fresh:
  "\<exists>us. m_trail (propagate s) = m_trail s @ us \<and> set us \<inter> set (m_trail s) = {}"
  unfolding propagate_def
proof (induction s rule: propagate_loop.induct)
  case (1 s)
  obtain us where r: "m_trail (propagate_round s) = m_trail s @ us"
    "set us \<inter> set (m_trail s) = {}"
    unfolding propagate_round_def using fold_propagate_clause_fresh by blast
  show ?case
  proof (cases "m_inconsistent (propagate_round s)
      \<or> length (m_trail (propagate_round s)) = length (m_trail s)")
    case True
    then have "propagate_loop s = propagate_round s"
      by (subst propagate_loop.simps) (simp add: Let_def)
    with r show ?thesis by simp
  next
    case False
    then have eq: "propagate_loop s = propagate_loop (propagate_round s)"
      by (subst propagate_loop.simps) (simp add: Let_def)
    from False "1.IH" [OF refl] obtain vs where vs:
      "m_trail (propagate_loop (propagate_round s)) = m_trail (propagate_round s) @ vs"
      "set vs \<inter> set (m_trail (propagate_round s)) = {}"
      by blast
    have "m_trail (propagate_loop s) = m_trail s @ (us @ vs)"
      using eq r vs by simp
    moreover have "set (us @ vs) \<inter> set (m_trail s) = {}"
      using r vs by auto
    ultimately show ?thesis by blast
  qed
qed

text \<open>Propagation and the proof log do not see each other.\<close>

lemma propagate_clause_drat:
  "propagate_clause c (s\<lparr>m_drat := d\<rparr>) = (propagate_clause c s)\<lparr>m_drat := d\<rparr>"
  by (simp add: propagate_clause_def split: list.splits)

lemma fold_propagate_clause_drat:
  "fold propagate_clause cs (s\<lparr>m_drat := d\<rparr>) = (fold propagate_clause cs s)\<lparr>m_drat := d\<rparr>"
  by (induction cs arbitrary: s) (simp_all add: propagate_clause_drat)

lemma propagate_round_drat:
  "propagate_round (s\<lparr>m_drat := d\<rparr>) = (propagate_round s)\<lparr>m_drat := d\<rparr>"
  by (simp add: propagate_round_def fold_propagate_clause_drat)

lemma stable_drat:
  "propagate_round s = s \<Longrightarrow> propagate (s\<lparr>m_drat := d\<rparr>) = s\<lparr>m_drat := d\<rparr>"
  by (rule propagate_stable) (simp add: propagate_round_drat)

text \<open>A probe: the literal is assumed in a scope of its own and propagated.\<close>

lemma probe_start:
  assumes "lit_value s x = l_undef"
  shows "m_trail (assign_scoped x (push s)) = m_trail s @ [x]"
    and "m_inconsistent (assign_scoped x (push s)) = m_inconsistent s"
    and "m_clauses (assign_scoped x (push s)) = m_clauses s"
    and "trail_ok s \<Longrightarrow> trail_ok (assign_scoped x (push s))"
proof -
  have "lit_value (push s) x = l_undef"
    using assms by (simp add: lit_value_undef_iff)
  then have eq: "assign_scoped x (push s) = (push s)\<lparr>m_trail := m_trail (push s) @ [x]\<rparr>"
    by (rule assign_scoped_undef)
  show "m_trail (assign_scoped x (push s)) = m_trail s @ [x]"
    and "m_inconsistent (assign_scoped x (push s)) = m_inconsistent s"
    and "m_clauses (assign_scoped x (push s)) = m_clauses s"
    by (simp_all add: eq)
  show "trail_ok (assign_scoped x (push s))" if "trail_ok s"
    using that by (intro trail_ok_assign_scoped) simp
qed

lemma probe_fragment:
  assumes "lit_value s x = l_undef"
  shows "\<exists>frag. m_trail (propagate (assign_scoped x (push s))) = m_trail s @ x # frag
    \<and> drop (length (m_trail (assign_scoped x (push s)))) (m_trail (propagate (assign_scoped x (push s))))
        = frag
    \<and> set frag \<inter> insert x (set (m_trail s)) = {}
    \<and> set frag \<subseteq> unit_implied (m_clauses s) (insert x (set (m_trail s)))"
proof -
  let ?s2 = "assign_scoped x (push s)"
  obtain frag where f: "m_trail (propagate ?s2) = m_trail ?s2 @ frag"
    "set frag \<inter> set (m_trail ?s2) = {}"
    using propagate_fresh by blast
  have "set (m_trail (propagate ?s2)) \<subseteq> unit_implied (m_clauses s) (insert x (set (m_trail s)))"
    using propagate_sound [of ?s2] by (simp add: probe_start [OF assms])
  then show ?thesis
    using f by (intro exI [of _ frag]) (simp add: probe_start [OF assms])
qed

lemma probe_complete:
  assumes "lit_value s x = l_undef" and "trail_ok s"
    and "\<not> inconsistent (propagate (assign_scoped x (push s)))"
  shows "set (m_trail (propagate (assign_scoped x (push s))))
      = unit_implied (m_clauses s) (insert x (set (m_trail s)))"
    and "\<not> falsified (m_clauses s) (unit_implied (m_clauses s) (insert x (set (m_trail s))))"
    and "trail_ok (propagate (assign_scoped x (push s)))"
proof -
  let ?s2 = "assign_scoped x (push s)"
  have ok: "trail_ok ?s2"
    using assms(1,2) by (rule probe_start(4))
  have ninc: "\<not> m_inconsistent (propagate ?s2)"
    using assms(3) by (simp add: inconsistent_def)
  show "set (m_trail (propagate ?s2)) = unit_implied (m_clauses s) (insert x (set (m_trail s)))"
    using propagate_complete(1) [OF ok ninc] by (simp add: probe_start [OF assms(1)])
  show "\<not> falsified (m_clauses s) (unit_implied (m_clauses s) (insert x (set (m_trail s))))"
    using propagate_complete(2) [OF ok ninc] by (simp add: probe_start [OF assms(1)])
  show "trail_ok (propagate ?s2)"
    using ok by (rule trail_ok_propagate)
qed

lemma probe_no_conflict:
  assumes "lit_value s x = l_undef" and "trail_ok s" and "\<not> m_inconsistent s"
    and "\<not> falsified (m_clauses s) (unit_implied (m_clauses s) (insert x (set (m_trail s))))"
  shows "\<not> inconsistent (propagate (assign_scoped x (push s)))"
proof -
  let ?s2 = "assign_scoped x (push s)"
  have "m_inconsistent (propagate ?s2)
      \<longleftrightarrow> falsified (m_clauses ?s2) (unit_implied (m_clauses ?s2) (set (m_trail ?s2)))"
    using assms(1-3) by (intro propagate_inconsistent_iff) (simp_all add: probe_start)
  then show ?thesis
    using assms(4) by (simp add: inconsistent_def probe_start [OF assms(1)])
qed

lemma probe_pop:
  assumes "\<not> m_inconsistent s"
  shows "pop 1 (propagate (assign_scoped x (push s))) = s"
proof -
  let ?s2 = "assign_scoped x (push s)"
  obtain t b where f: "propagate ?s2 = ?s2\<lparr>m_trail := t, m_inconsistent := b\<rparr>"
    using propagate_frame by blast
  obtain us where us: "m_trail (propagate ?s2) = m_trail s @ us"
    using probe_trail by blast
  then have t: "t = m_trail s @ us"
    using f by (metis solver.select_convs(5) solver.surjective solver.update_convs(5,7))
  show ?thesis
    unfolding f using assms t
    by (simp add: pop.simps assign_scoped_def push_def split: lbool.splits)
qed

lemma assign_scoped_true: "l \<in> set (m_trail s) \<Longrightarrow> assign_scoped l s = s"
  by (simp add: assign_scoped_def lit_value_def)

lemma fold_assign_scoped_true: "set lits \<subseteq> set (m_trail s) \<Longrightarrow> fold assign_scoped lits s = s"
  by (induction lits) (simp_all add: assign_scoped_true)

lemma solver_drat_same [simp]: "s\<lparr>m_drat := m_drat s\<rparr> = s"
  by simp

lemma try_lit_neutral:
  assumes n: "neutral_state N l (s, p)" and l2: "l2 \<in> N" and undef: "lit_value s l2 = l_undef"
  shows "\<exists>d p'. try_lit l2 False (s, p) = (True, s\<lparr>m_drat := d\<rparr>, p')
    \<and> m_assigned p' = m_assigned p \<and> m_cached_bins p' = m_cached_bins p"
proof -
  let ?C = "m_clauses s"
  let ?T = "set (m_trail s)"
  from n have ok: "trail_ok s" and ninc: "\<not> m_inconsistent s" and st: "propagate_round s = s"
    and sub: "?T \<subseteq> N" and closed: "unit_implied ?C N \<subseteq> N" and nf: "\<not> falsified ?C N"
    and asg: "m_assigned p \<inter> N \<subseteq> ?T" and cache: "cache_sound ?C ?T (m_cached_bins p)"
    by (simp_all add: neutral_state_def)
  have inN: "unit_implied ?C (insert l2 ?T) \<subseteq> N"
  proof -
    have "insert l2 ?T \<subseteq> N"
      using l2 sub by simp
    then have "unit_implied ?C (insert l2 ?T) \<subseteq> unit_implied ?C N"
      by (rule unit_implied_mono)
    then show ?thesis
      using closed by blast
  qed
  show ?thesis
  proof (cases rule: try_lit_cases [where u = False and p = p and l = l2 and s = s])
    case (hit lits)
    then have idx: "index l2 < length (m_cached_bins p)"
      "m_available (m_cached_bins p ! index l2)" "lits = m_lits (m_cached_bins p ! index l2)"
      by (auto simp: cached_implied_lits_def split: if_splits)
    then have "set lits \<subseteq> unit_implied ?C (insert (lit_at (index l2)) ?T)"
      using cache unfolding cache_sound_def by blast
    then have "set lits \<subseteq> unit_implied ?C (insert l2 ?T)"
      by simp
    then have "set (filter (\<lambda>lit. lit \<in> m_assigned p) lits) \<subseteq> ?T"
      using inN asg by auto
    then have f: "fold assign_scoped (filter (\<lambda>lit. lit \<in> m_assigned p) lits) s = s"
      by (rule fold_assign_scoped_true)
    let ?d = "if m_drat_enabled s
        then m_drat s @ drat_lines l2 (filter (\<lambda>lit. lit \<in> m_assigned p) lits) else m_drat s"
    have "try_lit l2 False (s, p) = (True, s\<lparr>m_drat := ?d\<rparr>,
        p\<lparr>m_num_assigned := m_num_assigned p
            + of_nat (length (filter (\<lambda>lit. lit \<in> m_assigned p) lits))\<rparr>)"
      using hit(2) f ninc stable_drat [OF st, of ?d]
      by (simp add: try_lit_hit assert_all_eq inconsistent_def)
    then show ?thesis
      by (intro exI [of _ ?d] exI) (rule conjI, assumption, simp)
  next
    case conflict
    have "\<not> falsified ?C (unit_implied ?C (insert l2 ?T))"
      using nf inN falsified_mono by blast
    then have "\<not> inconsistent (propagate (assign_scoped l2 (push s)))"
      using undef ok ninc by (intro probe_no_conflict)
    then show ?thesis
      using conflict(2) by simp
  next
    case no_conflict
    obtain frag where frag:
      "drop (length (m_trail (assign_scoped l2 (push s)))) (m_trail (propagate (assign_scoped l2 (push s))))
        = frag"
      "set frag \<inter> insert l2 ?T = {}"
      "set frag \<subseteq> unit_implied ?C (insert l2 ?T)"
      using probe_fragment [OF undef] by blast
    have "filter (\<lambda>lit. lit \<in> m_assigned p) frag = []"
    proof -
      have "y \<notin> m_assigned p" if "y \<in> set frag" for y
      proof
        assume "y \<in> m_assigned p"
        then have "y \<in> ?T"
          using that frag(3) inN asg by blast
        then show False
          using that frag(2) by blast
      qed
      then show ?thesis
        by (simp add: filter_empty_conv)
    qed
    then have "try_lit l2 False (s, p)
        = (True, s\<lparr>m_drat := m_drat s\<rparr>, p\<lparr>m_counter := m_counter p - 1, m_to_assert := []\<rparr>)"
      using no_conflict frag(1) ninc propagate_stable [OF st] probe_pop [OF ninc, of l2]
      by (simp add: try_lit_no_conflict Let_def inconsistent_def)
    then show ?thesis
      by (intro exI [of _ "m_drat s"] exI) (rule conjI, assumption, simp)
  qed
qed

lemma neutral_state_step:
  assumes "neutral_state N l (s, p)"
    and "m_assigned p' = m_assigned p" and "m_cached_bins p' = m_cached_bins p"
  shows "neutral_state N l (s\<lparr>m_drat := d\<rparr>, p')"
  using assms by (simp add: neutral_state_def propagate_round_drat)

lemma process_binary_neutral:
  "neutral_state N l (s, p) \<Longrightarrow> \<exists>d. fst (process_binary l i sz (s, p)) = s\<lparr>m_drat := d\<rparr>"
proof (induction l i sz "(s, p)" arbitrary: s p rule: process_binary.induct)
  case (1 l i sz s p)
  have same: "\<exists>d. s = s\<lparr>m_drat := d\<rparr>"
    by (rule exI [of _ "m_drat s"]) simp
  show ?case
  proof (cases "i < sz \<and> i < length (get_wlist s (neg l))")
    case False
    then have "process_binary l i sz (s, p) = (s, p)"
      by (subst process_binary.simps) (auto simp: Let_def)
    then show ?thesis
      using same by simp
  next
    case in_range: True
    let ?w = "get_wlist s (neg l) ! i"
    let ?l2 = "get_literal ?w"
    show ?thesis
    proof (cases "\<not> is_binary_clause ?w \<or> index l > index ?l2 \<or> lit_value s ?l2 \<noteq> l_undef")
      case True
      then have "process_binary l i sz (s, p) = process_binary l (i + 1) sz (s, p)"
        using in_range by (subst process_binary.simps) (auto simp: Let_def)
      moreover have "\<exists>d. fst (process_binary l (i + 1) sz (s, p)) = s\<lparr>m_drat := d\<rparr>"
        using True in_range "1.hyps"(1-3) "1.prems"
        by (cases "is_binary_clause ?w"; cases "index l > index ?l2"; auto simp: Let_def)
      ultimately show ?thesis by simp
    next
      case False
      have "?w \<in> set (m_watches s (neg l))"
        using in_range by (simp add: get_wlist_def)
      then have "?l2 \<in> N"
        using False "1.prems" by (auto simp: neutral_state_def)
      then obtain d p' where t: "try_lit ?l2 False (s, p) = (True, s\<lparr>m_drat := d\<rparr>, p')"
        and p': "m_assigned p' = m_assigned p" "m_cached_bins p' = m_cached_bins p"
        using try_lit_neutral [OF "1.prems", of ?l2] False by blast
      have n': "neutral_state N l (s\<lparr>m_drat := d\<rparr>, p')"
        using "1.prems" p' by (rule neutral_state_step)
      have ninc: "\<not> inconsistent (s\<lparr>m_drat := d\<rparr>)"
        using "1.prems" by (simp add: neutral_state_def inconsistent_def)
      have "process_binary l i sz (s, p)
          = process_binary l (i + 1) (length (get_wlist (s\<lparr>m_drat := d\<rparr>) (neg l))) (s\<lparr>m_drat := d\<rparr>, p')"
        using in_range False t ninc by (subst process_binary.simps) (auto simp: Let_def)
      moreover have "\<exists>d'. fst (process_binary l (i + 1) (length (get_wlist (s\<lparr>m_drat := d\<rparr>) (neg l)))
          (s\<lparr>m_drat := d\<rparr>, p')) = s\<lparr>m_drat := d\<rparr>\<lparr>m_drat := d'\<rparr>"
        using in_range False t ninc n'
          "1.hyps"(4) [of "get_wlist s (neg l)" ?w ?l2 True "(s\<lparr>m_drat := d\<rparr>, p')" "s\<lparr>m_drat := d\<rparr>" p']
        by (auto simp: Let_def)
      ultimately show ?thesis
        by auto
    qed
  qed
qed

lemma cache_sound_mono:
  assumes "cache_sound C T bins" and "T \<subseteq> T'"
  shows "cache_sound C T' bins"
  unfolding cache_sound_def
proof (intro allI impI)
  fix i
  assume i: "i < length bins" "m_available (bins ! i)"
  have "unit_implied C (insert (lit_at i) T) \<subseteq> unit_implied C (insert (lit_at i) T')"
    using assms(2) by (intro unit_implied_mono) auto
  then show "set (m_lits (bins ! i)) \<subseteq> unit_implied C (insert (lit_at i) T')"
    using assms(1) i unfolding cache_sound_def by blast
qed

lemma cache_sound_frame:
  assumes "cache_sound (m_clauses s) (set (m_trail s)) bins" and "solver_frame s s'"
  shows "cache_sound (m_clauses s') (set (m_trail s')) bins"
proof -
  have "set (m_trail s) \<subseteq> set (m_trail s')"
    using assms(2) by (metis solver_frame_def set_take_subset)
  moreover have "m_clauses s' = m_clauses s"
    using assms(2) by (simp add: solver_frame_def)
  ultimately show ?thesis
    using assms(1) cache_sound_mono by simp
qed

lemma cache_sound_cache_bins:
  assumes "cache_sound C T (m_cached_bins p)"
    and "set (drop n (m_trail s3)) \<subseteq> unit_implied C (insert l T)"
  shows "cache_sound C T (m_cached_bins (snd (cache_bins l n (s3, p))))"
proof (cases "\<not> m_probing_cache p \<or> m_allocation_size s3 > m_probing_cache_limit p")
  case True
  then show ?thesis
    using assms(1) by (auto simp: cache_bins_def)
next
  case False
  let ?bins = "vec_reserve (index l + 1) (m_cached_bins p)"
  let ?e = "(?bins ! index l)\<lparr>m_available := True, m_lits := drop n (m_trail s3)\<rparr>"
  have eq: "m_cached_bins (snd (cache_bins l n (s3, p))) = ?bins[index l := ?e]"
    using False by (simp add: cache_bins_def Let_def)
  show ?thesis
    unfolding eq cache_sound_def
  proof (intro allI impI)
    fix i
    assume i: "i < length (?bins[index l := ?e])" "m_available (?bins[index l := ?e] ! i)"
    show "set (m_lits (?bins[index l := ?e] ! i)) \<subseteq> unit_implied C (insert (lit_at i) T)"
    proof (cases "i = index l")
      case True
      then show ?thesis
        using i(1) assms(2) by simp
    next
      case False
      then have e: "?bins[index l := ?e] ! i = ?bins ! i"
        by simp
      show ?thesis
      proof (cases "i < length (m_cached_bins p)")
        case True
        then have "?bins ! i = m_cached_bins p ! i"
          by (simp add: vec_reserve_def nth_append)
        then show ?thesis
          using assms(1) i(2) e True unfolding cache_sound_def by auto
      next
        case False
        then have "?bins ! i = \<lparr>m_available = False, m_lits = []\<rparr>"
          using i(1) by (simp add: vec_reserve_def nth_append)
        then show ?thesis
          using i(2) e by simp
      qed
    qed
  qed
qed

lemma cache_sound_reset_cache:
  assumes "cache_sound C T (m_cached_bins p)"
  shows "cache_sound C T (m_cached_bins (reset_cache l p))"
  using assms
  by (auto simp: cache_sound_def reset_cache_def nth_list_update split: if_splits)

lemma probe_implied:
  "set (m_trail (propagate (assign_scoped l (push s))))
     \<subseteq> unit_implied (m_clauses s) (insert l (set (m_trail s)))"
proof -
  have "set (m_trail (assign_scoped l (push s))) \<subseteq> insert l (set (m_trail s))"
    by (auto simp: assign_scoped_def split: lbool.splits)
  then have "set (m_trail (assign_scoped l (push s)))
      \<subseteq> unit_implied (m_clauses (assign_scoped l (push s))) (insert l (set (m_trail s)))"
    using unit_implied_extensive by fastforce
  then show ?thesis
    using propagate_sound_gen [of "assign_scoped l (push s)" "insert l (set (m_trail s))"]
    by simp
qed

lemma cache_ok_try_lit:
  assumes "cache_ok (s, p)" and "try_lit l u (s, p) = (ok, s', p')"
  shows "cache_ok (s', p')"
proof -
  have fr: "solver_frame s s'"
    using assms(2) by (rule try_lit_frame(1))
  have cl: "m_clauses s' = m_clauses s"
    using fr by (simp add: solver_frame_def)
  have "cache_sound (m_clauses s) (set (m_trail s)) (m_cached_bins p')"
  proof (cases rule: try_lit_cases [where u = u and p = p and l = l and s = s])
    case (hit lits)
    then have "m_cached_bins p' = m_cached_bins p"
      using assms(2) by (auto simp: try_lit_hit assert_all_eq)
    then show ?thesis
      using assms(1) by (simp add: cache_ok_def)
  next
    case conflict
    then have "m_cached_bins p' = m_cached_bins p"
      using assms(2) by (auto simp: try_lit_conflict)
    then show ?thesis
      using assms(1) by (simp add: cache_ok_def)
  next
    case no_conflict
    let ?s3 = "propagate (assign_scoped l (push s))"
    let ?n = "length (m_trail (assign_scoped l (push s)))"
    let ?p3 = "p\<lparr>m_counter := m_counter p - 1,
                  m_to_assert := filter (\<lambda>lit. lit \<in> m_assigned p) (drop ?n (m_trail ?s3))\<rparr>"
    have bins: "m_cached_bins p'
        = (if u then m_cached_bins (snd (cache_bins l ?n (?s3, ?p3))) else m_cached_bins p)"
      using no_conflict assms(2)
      by (auto simp: try_lit_no_conflict Let_def case_prod_beta assert_all_eq)
    have "set (drop ?n (m_trail ?s3)) \<subseteq> unit_implied (m_clauses s) (insert l (set (m_trail s)))"
      using probe_implied [of l s] by (meson in_set_dropD subset_iff)
    then have "cache_sound (m_clauses s) (set (m_trail s)) (m_cached_bins (snd (cache_bins l ?n (?s3, ?p3))))"
      using assms(1) by (intro cache_sound_cache_bins) (simp_all add: cache_ok_def)
    then show ?thesis
      using bins assms(1) by (simp add: cache_ok_def)
  qed
  then show ?thesis
    using cache_sound_frame [OF _ fr] by (simp add: cache_ok_def)
qed

lemma cache_ok_process_binary: "cache_ok sp \<Longrightarrow> cache_ok (process_binary l i sz sp)"
  using process_binary_rel [where R = "\<lambda>sp sp'. cache_ok sp \<longrightarrow> cache_ok sp'"
      and l = l and i = i and sz = sz and sp = sp]
    cache_ok_try_lit
  by blast

lemma cache_ok_process_core:
  assumes "cache_ok (s, p)"
  shows "cache_ok (process_core v (s, p))"
proof (cases "inconsistent (propagate (assign_scoped (Lit v False) (push s)))")
  case True
  have "solver_frame s (fst (process_core v (s, p)))"
    using process_core_frame [of s p v] by (simp add: frame_def)
  moreover have "m_cached_bins (snd (process_core v (s, p))) = m_cached_bins p"
    using True by (simp add: process_core_conflict)
  ultimately show ?thesis
    using assms cache_sound_frame by (simp add: cache_ok_def)
next
  case False
  let ?l = "Lit v False"
  let ?s3 = "propagate (assign_scoped ?l (push s))"
  let ?n = "length (m_trail (assign_scoped ?l (push s)))"
  let ?p2 = "p\<lparr>m_counter := m_counter p - 1, m_assigned := set (drop ?n (m_trail ?s3))\<rparr>"
  obtain s4 p3 where 4: "cache_bins ?l ?n (?s3, ?p2) = (s4, p3)"
    by (cases "cache_bins ?l ?n (?s3, ?p2)") auto
  obtain ok s6 p4 where 6: "try_lit (neg ?l) True (pop 1 s4, p3) = (ok, s6, p4)"
    by (cases "try_lit (neg ?l) True (pop 1 s4, p3)") auto
  have "set (drop ?n (m_trail ?s3)) \<subseteq> unit_implied (m_clauses s) (insert ?l (set (m_trail s)))"
    using probe_implied [of ?l s] by (meson in_set_dropD subset_iff)
  then have "cache_sound (m_clauses s) (set (m_trail s)) (m_cached_bins (snd (cache_bins ?l ?n (?s3, ?p2))))"
    using assms by (intro cache_sound_cache_bins) (simp_all add: cache_ok_def)
  then have c3: "cache_sound (m_clauses s) (set (m_trail s)) (m_cached_bins p3)"
    using 4 by simp
  have "solver_frame s (pop 1 s4)"
    using cache_bins_static [OF 4]
    by (intro solver_frame_pop_probe) (simp_all add: probe_prefix)
  then have "cache_sound (m_clauses (pop 1 s4)) (set (m_trail (pop 1 s4))) (m_cached_bins p3)"
    by (rule cache_sound_frame [OF c3])
  then have "cache_ok (pop 1 s4, p3)"
    by (simp only: cache_ok_def fst_conv snd_conv)
  then have a: "cache_ok (s6, p4)"
    using 6 by (rule cache_ok_try_lit)
  then have b: "cache_ok (process_binary ?l 0 k (s6, p4))" for k
    by (rule cache_ok_process_binary)
  show ?thesis
    using False 4 6 a b by (simp add: process_core_no_conflict Let_def)
qed

lemma cache_ok_process: "cache_ok (s, p) \<Longrightarrow> cache_ok (process v (s, p))"
  using cache_ok_process_core [of s p v]
  by (simp add: process_def Let_def case_prod_beta cache_ok_def)

text \<open>The trail stays free of complementary literals through the prober and the processor.\<close>

lemma trail_ok_try_lit:
  assumes "trail_ok s"
  shows "trail_ok (fst (snd (try_lit l u (s, p))))"
proof (cases rule: try_lit_cases [where u = u and p = p and l = l and s = s])
  case (hit lits)
  then show ?thesis
    using assms
    by (simp add: try_lit_hit assert_all_eq trail_ok_fold_assign_scoped trail_ok_propagate)
next
  case conflict
  then show ?thesis
    using assms
    by (simp add: try_lit_conflict trail_ok_propagate trail_ok_assign_scoped trail_ok_pop)
next
  case no_conflict
  let ?s3 = "propagate (assign_scoped l (push s))"
  let ?n = "length (m_trail (assign_scoped l (push s)))"
  let ?p3 = "p\<lparr>m_counter := m_counter p - 1,
                m_to_assert := filter (\<lambda>lit. lit \<in> m_assigned p) (drop ?n (m_trail ?s3))\<rparr>"
  obtain s4 p4 where 4: "(if u then cache_bins l ?n (?s3, ?p3) else (?s3, ?p3)) = (s4, p4)"
    by (cases "if u then cache_bins l ?n (?s3, ?p3) else (?s3, ?p3)") auto
  have "trail_ok ?s3"
    using assms by (simp add: trail_ok_propagate trail_ok_assign_scoped)
  moreover have "m_trail s4 = m_trail ?s3"
    using 4 cache_bins_static [of l ?n ?s3 ?p3 s4 p4] by (auto split: if_splits)
  ultimately have "trail_ok s4"
    by (simp add: trail_ok_def)
  then have "trail_ok (pop 1 s4)"
    by (rule trail_ok_pop)
  then have "trail_ok (propagate (fst (assert_all l (m_to_assert p4) (pop 1 s4, p4))))"
    by (simp add: assert_all_eq trail_ok_fold_assign_scoped trail_ok_propagate)
  then show ?thesis
    using no_conflict 4 by (simp add: try_lit_no_conflict Let_def case_prod_beta)
qed

lemma trail_ok_process_binary:
  "trail_ok (fst sp) \<Longrightarrow> trail_ok (fst (process_binary l i sz sp))"
  using process_binary_rel [where R = "\<lambda>sp sp'. trail_ok (fst sp) \<longrightarrow> trail_ok (fst sp')"
      and l = l and i = i and sz = sz and sp = sp]
    trail_ok_try_lit
  by (metis fst_conv snd_conv)

lemma trail_ok_process_core:
  assumes "trail_ok s"
  shows "trail_ok (fst (process_core v (s, p)))"
proof (cases "inconsistent (propagate (assign_scoped (Lit v False) (push s)))")
  case True
  then show ?thesis
    using assms
    by (simp add: process_core_conflict trail_ok_propagate trail_ok_assign_scoped trail_ok_pop)
next
  case False
  let ?l = "Lit v False"
  let ?s3 = "propagate (assign_scoped ?l (push s))"
  let ?n = "length (m_trail (assign_scoped ?l (push s)))"
  let ?p2 = "p\<lparr>m_counter := m_counter p - 1, m_assigned := set (drop ?n (m_trail ?s3))\<rparr>"
  obtain s4 p3 where 4: "cache_bins ?l ?n (?s3, ?p2) = (s4, p3)"
    by (cases "cache_bins ?l ?n (?s3, ?p2)") auto
  obtain ok s6 p4 where 6: "try_lit (neg ?l) True (pop 1 s4, p3) = (ok, s6, p4)"
    by (cases "try_lit (neg ?l) True (pop 1 s4, p3)") auto
  have "trail_ok ?s3"
    using assms by (simp add: trail_ok_propagate trail_ok_assign_scoped)
  moreover have "m_trail s4 = m_trail ?s3"
    using cache_bins_static [OF 4] by simp
  ultimately have "trail_ok s4"
    by (simp add: trail_ok_def)
  then have "trail_ok (pop 1 s4)"
    by (rule trail_ok_pop)
  then have a: "trail_ok s6"
    using trail_ok_try_lit [of "pop 1 s4" "neg ?l" True p3] 6 by simp
  then have b: "trail_ok (fst (process_binary ?l 0 k (s6, p4)))" for k
    using trail_ok_process_binary [of "(s6, p4)" ?l 0 k] by simp
  show ?thesis
    using False 4 6 a b by (simp add: process_core_no_conflict Let_def)
qed

lemma trail_ok_process: "trail_ok s \<Longrightarrow> trail_ok (fst (process v (s, p)))"
  using trail_ok_process_core [of s v p]
  by (simp add: process_def Let_def case_prod_beta)

lemma fold_assign_scoped_trail_le:
  "set (m_trail (fold assign_scoped lits s)) \<subseteq> set (m_trail s) \<union> set lits"
proof (induction lits arbitrary: s)
  case Nil
  then show ?case by simp
next
  case (Cons x lits)
  have "set (m_trail (assign_scoped x s)) \<subseteq> insert x (set (m_trail s))"
    by (auto simp: assign_scoped_def split: lbool.splits)
  then show ?case
    using Cons.IH [of "assign_scoped x s"] by auto
qed

lemma fold_assign_scoped_grows:
  "set (m_trail s) \<subseteq> set (m_trail (fold assign_scoped lits s))"
proof (induction lits arbitrary: s)
  case Nil
  then show ?case by simp
next
  case (Cons x lits)
  have "set (m_trail s) \<subseteq> set (m_trail (assign_scoped x s))"
    by (auto simp: assign_scoped_def split: lbool.splits)
  then show ?case
    using Cons.IH [of "assign_scoped x s"] by auto
qed

lemma fold_assign_scoped_all:
  assumes "\<forall>x \<in> set lits. neg x \<notin> set (m_trail s) \<union> set lits"
  shows "set lits \<subseteq> set (m_trail (fold assign_scoped lits s))"
  using assms
proof (induction lits arbitrary: s)
  case Nil
  then show ?case by simp
next
  case (Cons x lits)
  have "neg x \<notin> set (m_trail s)"
    using Cons.prems by simp
  then have x: "x \<in> set (m_trail (assign_scoped x s))"
    by (auto simp: assign_scoped_def lit_value_def split: lbool.splits if_splits)
  have le: "set (m_trail (assign_scoped x s)) \<subseteq> insert x (set (m_trail s))"
    by (auto simp: assign_scoped_def split: lbool.splits)
  have "\<forall>y \<in> set lits. neg y \<notin> set (m_trail (assign_scoped x s)) \<union> set lits"
  proof
    fix y
    assume y: "y \<in> set lits"
    then have "neg y \<notin> set (m_trail s) \<union> set (x # lits)"
      using Cons.prems by simp
    then show "neg y \<notin> set (m_trail (assign_scoped x s)) \<union> set lits"
      using le by auto
  qed
  then have "set lits \<subseteq> set (m_trail (fold assign_scoped lits (assign_scoped x s)))"
    by (rule Cons.IH)
  moreover have "x \<in> set (m_trail (fold assign_scoped lits (assign_scoped x s)))"
    using x fold_assign_scoped_grows [of "assign_scoped x s" lits] by blast
  ultimately show ?case by simp
qed

lemma fold_assign_scoped_clauses [simp]:
  "m_clauses (fold assign_scoped lits s) = m_clauses s"
  by (induction lits arbitrary: s) simp_all

lemma propagate_grows: "set (m_trail s) \<subseteq> set (m_trail (propagate s))"
  using propagate_trail [of s] by auto

lemma watch_sound_implied:
  assumes "watch_sound s" and "w \<in> set (m_watches s x)" and "is_binary_clause w"
  shows "get_literal w \<in> unit_implied (m_clauses s) (insert x T)"
proof -
  from assms obtain c where c: "c \<in> set (m_clauses s)" "neg x \<in> set c" "get_literal w \<in> set c"
    "set c \<subseteq> {neg x, get_literal w}"
    unfolding watch_sound_def by blast
  have "\<forall>y \<in> set c. y \<noteq> get_literal w \<longrightarrow> neg y \<in> unit_implied (m_clauses s) (insert x T)"
  proof (intro ballI impI)
    fix y
    assume "y \<in> set c" "y \<noteq> get_literal w"
    then have "y = neg x"
      using c(4) by auto
    then show "neg y \<in> unit_implied (m_clauses s) (insert x T)"
      by (simp add: unit_implied.given)
  qed
  with c(1,3) show ?thesis
    by (intro unit_implied.unit [of c]) auto
qed

text \<open>
  After the complementary probe has passed without conflict, the state is one in which
  probing a binary neighbour cannot bring anything new.
\<close>

lemma try_lit_neutral_state:
  assumes ok: "trail_ok s" and ninc: "\<not> m_inconsistent s" and undef: "lit_value s x = l_undef"
    and ws: "watch_sound s" and co: "cache_ok (s, p)"
    and xA: "x \<notin> m_assigned p"
    and t: "try_lit x True (s, p) = (True, s6, p6)"
  shows "neutral_state (unit_implied (m_clauses s) (insert x (set (m_trail s)))) (neg x) (s6, p6)"
proof -
  let ?C = "m_clauses s"
  let ?T = "set (m_trail s)"
  let ?N = "unit_implied ?C (insert x ?T)"
  let ?s3 = "propagate (assign_scoped x (push s))"
  let ?n = "length (m_trail (assign_scoped x (push s)))"
  let ?W = "filter (\<lambda>lit. lit \<in> m_assigned p) (drop ?n (m_trail ?s3))"
  let ?p3 = "p\<lparr>m_counter := m_counter p - 1, m_to_assert := ?W\<rparr>"
  have nc: "\<not> inconsistent ?s3"
  proof
    assume "inconsistent ?s3"
    then have "fst (try_lit x True (s, p)) = False"
      by (simp add: try_lit_conflict)
    then show False
      using t by simp
  qed
  obtain s4 p4 where 4: "cache_bins x ?n (?s3, ?p3) = (s4, p4)"
    by (cases "cache_bins x ?n (?s3, ?p3)") auto
  have p4: "m_to_assert p4 = ?W"
    using cache_bins_blind(3) [of x ?n ?s3 ?p3] 4 by simp
  let ?y = "fst (assert_all x ?W (pop 1 s4, p4))"
  have s6: "s6 = propagate ?y" and ok6: "\<not> inconsistent s6"
    using t nc 4 p4 by (auto simp: try_lit_no_conflict Let_def case_prod_beta)
  have tp: "m_trail (pop 1 s4) = m_trail s"
    using cache_bins_static [OF 4]
    by (intro solver_frame_pop_probe(2)) (simp_all add: probe_prefix)
  have ty: "m_trail ?y = m_trail (fold assign_scoped ?W (pop 1 s4))"
    by (simp add: assert_all_eq)
  have cy: "m_clauses ?y = ?C"
    using cache_bins_static [OF 4] by (simp add: assert_all_eq)
  have fr: "solver_frame s s6"
    using t by (rule try_lit_frame(1))
  have cl6: "m_clauses s6 = ?C" and w6: "m_watches s6 = m_watches s"
    using fr by (simp_all add: solver_frame_def)
  have T6: "?T \<subseteq> set (m_trail s6)"
    using fr by (metis solver_frame_def set_take_subset)
  have N: "set (m_trail ?s3) = ?N" and nf: "\<not> falsified ?C ?N" and ok3: "trail_ok ?s3"
    using probe_complete [OF undef ok nc] by simp_all
  have closed: "unit_implied ?C ?N \<subseteq> ?N"
    by (rule unit_implied_closure) simp
  have WN: "set ?W \<subseteq> ?N"
    using N by (auto dest: in_set_dropD)
  have "set (m_trail (fold assign_scoped ?W (pop 1 s4))) \<subseteq> ?T \<union> set ?W"
    using fold_assign_scoped_trail_le [of ?W "pop 1 s4"] tp by simp
  then have yN: "set (m_trail ?y) \<subseteq> ?N"
    using WN ty unit_implied_extensive [of "insert x ?T" ?C] by auto
  have "set (m_trail s6) \<subseteq> unit_implied ?C (set (m_trail ?y))"
    using propagate_sound [of ?y] s6 cy by simp
  also have "\<dots> \<subseteq> unit_implied ?C ?N"
    using yN by (rule unit_implied_mono)
  finally have sub: "set (m_trail s6) \<subseteq> ?N"
    using closed by blast
  have W6: "set ?W \<subseteq> set (m_trail s6)"
  proof -
    have "\<forall>z \<in> set ?W. neg z \<notin> set (m_trail (pop 1 s4)) \<union> set ?W"
    proof
      fix z
      assume z: "z \<in> set ?W"
      then have "z \<in> set (m_trail ?s3)"
        by (auto dest: in_set_dropD)
      then have "neg z \<notin> set (m_trail ?s3)"
        using ok3 by (auto simp: trail_ok_def)
      moreover have "set (m_trail (pop 1 s4)) \<union> set ?W \<subseteq> set (m_trail ?s3)"
        using tp probe_trail [of x s] by (auto dest: in_set_dropD)
      ultimately show "neg z \<notin> set (m_trail (pop 1 s4)) \<union> set ?W"
        by blast
    qed
    then have "set ?W \<subseteq> set (m_trail (fold assign_scoped ?W (pop 1 s4)))"
      by (rule fold_assign_scoped_all)
    then show ?thesis
      using ty s6 propagate_grows [of ?y] by auto
  qed
  have asg: "m_assigned p6 \<inter> ?N \<subseteq> set (m_trail s6)"
  proof
    fix z
    assume "z \<in> m_assigned p6 \<inter> ?N"
    then have zA: "z \<in> m_assigned p" and zN: "z \<in> set (m_trail ?s3)"
      using try_lit_frame(3) [OF t] N by auto
    obtain frag where frag: "m_trail ?s3 = m_trail s @ x # frag" "drop ?n (m_trail ?s3) = frag"
      using probe_fragment [OF undef] by blast
    from zN frag(1) consider "z \<in> ?T" | "z = x" | "z \<in> set frag"
      by auto
    then show "z \<in> set (m_trail s6)"
    proof cases
      case 1
      then show ?thesis using T6 by blast
    next
      case 2
      then show ?thesis using xA zA by simp
    next
      case 3
      then have "z \<in> set ?W"
        using zA frag(2) by simp
      then show ?thesis using W6 by blast
    qed
  qed
  have cache: "cache_sound ?C (set (m_trail s6)) (m_cached_bins p6)"
    using cache_ok_try_lit [OF co t] cl6 by (simp add: cache_ok_def)
  have watches: "\<forall>w \<in> set (m_watches s6 (neg (neg x))). is_binary_clause w \<longrightarrow> get_literal w \<in> ?N"
    using watch_sound_implied [OF ws] w6 by simp
  have "trail_ok s6"
    using trail_ok_try_lit [OF ok, of x True p] t by simp
  moreover have "\<not> m_inconsistent s6"
    using ok6 by (simp add: inconsistent_def)
  moreover have "propagate_round s6 = s6"
    unfolding s6 by (rule propagate_round_propagate)
  ultimately show ?thesis
    using sub closed nf asg cache watches cl6
    by (simp add: neutral_state_def)
qed

lemma try_lit_probe_solver:
  "unlog (fst (snd (try_lit l True (s, p)))) = probe_solver l (m_assigned p) (unlog s)"
proof (cases "inconsistent (propagate (assign_scoped l (push s)))")
  case True
  then have "inconsistent (propagate (assign_scoped l (push (unlog s))))"
    by (simp add: probe_unlog)
  then show ?thesis
    using True unlog_propagate [of "assign_scoped l (push s)"]
    by (simp add: try_lit_conflict probe_solver_def)
next
  case False
  then have nc: "\<not> inconsistent (propagate (assign_scoped l (push (unlog s))))"
    by (simp add: probe_unlog)
  show ?thesis
    using False nc unlog_propagate [of "assign_scoped l (push s)"]
    by (simp add: try_lit_no_conflict Let_def case_prod_beta probe_trail_unlog probe_solver_def)
qed

lemma watch_sound_frame:
  "watch_sound s \<Longrightarrow> m_clauses s' = m_clauses s \<Longrightarrow> m_watches s' = m_watches s \<Longrightarrow> watch_sound s'"
  by (simp add: watch_sound_def)

lemma process_core_solver:
  assumes ok: "trail_ok s" and ninc: "\<not> m_inconsistent s" and undef: "var_value s v = l_undef"
    and ws: "watch_sound s" and co: "cache_ok (s, p)"
  shows "unlog (fst (process_core v (s, p))) = process_solver v (unlog s)"
proof (cases "inconsistent (propagate (assign_scoped (Lit v False) (push s)))")
  case True
  then have "inconsistent (propagate (assign_scoped (Lit v False) (push (unlog s))))"
    by (simp add: probe_unlog)
  then show ?thesis
    using True unlog_propagate [of "assign_scoped (Lit v False) (push s)"]
    by (simp add: process_core_conflict process_solver_def neg_def)
next
  case False
  then have nc: "\<not> inconsistent (propagate (assign_scoped (Lit v False) (push (unlog s))))"
    by (simp add: probe_unlog)
  let ?l = "Lit v False"
  let ?s3 = "propagate (assign_scoped ?l (push s))"
  let ?n = "length (m_trail (assign_scoped ?l (push s)))"
  let ?p2 = "p\<lparr>m_counter := m_counter p - 1, m_assigned := set (drop ?n (m_trail ?s3))\<rparr>"
  obtain s4 p3 where 4: "cache_bins ?l ?n (?s3, ?p2) = (s4, p3)"
    by (cases "cache_bins ?l ?n (?s3, ?p2)") auto
  obtain b s6 p4 where 6: "try_lit (neg ?l) True (pop 1 s4, p3) = (b, s6, p4)"
    by (cases "try_lit (neg ?l) True (pop 1 s4, p3)") auto
  have lu: "lit_value s ?l = l_undef" "lit_value s (neg ?l) = l_undef"
    using undef by (auto simp: var_value_def lit_value_def neg_def split: if_splits)
  have A3: "m_assigned p3 = set (drop ?n (m_trail ?s3))"
    using cache_bins_blind(6) [of ?l ?n ?s3 ?p2] 4 by simp
  have u4: "unlog s4 = unlog ?s3"
    using cache_bins_blind(1) [of ?l ?n ?s3 ?p2] 4 by simp
  have "unlog s6 = probe_solver (neg ?l) (m_assigned p3) (unlog (pop 1 s4))"
    using try_lit_probe_solver [of "neg ?l" "pop 1 s4" p3] 6 by simp
  also have "unlog (pop 1 s4) = pop 1 (propagate (assign_scoped ?l (push (unlog s))))"
    using u4 by simp
  finally have e6: "unlog s6 = process_solver v (unlog s)"
    using nc A3 by (simp add: process_solver_def Let_def probe_trail_unlog)
  have e: "unlog (fst (process_binary ?l 0 k (s6, p4))) = unlog s6" if "b" for k
  proof -
    have tp: "m_trail (pop 1 s4) = m_trail s"
      using cache_bins_static [OF 4]
      by (intro solver_frame_pop_probe(2)) (simp_all add: probe_prefix)
    have fr: "solver_frame s (pop 1 s4)"
      using cache_bins_static [OF 4]
      by (intro solver_frame_pop_probe) (simp_all add: probe_prefix)
    have ok4: "trail_ok (pop 1 s4)"
      using ok tp by (simp add: trail_ok_def)
    have ninc4: "\<not> m_inconsistent (pop 1 s4)"
      using cache_bins_static [OF 4]
      by (intro solver_frame_pop_probe(3) [of _ s]) (simp_all add: probe_prefix)
    have lu4: "lit_value (pop 1 s4) (neg ?l) = l_undef"
      using lu(2) tp by (simp add: lit_value_undef_iff)
    have ws4: "watch_sound (pop 1 s4)"
      using ws by (rule watch_sound_frame) (simp_all add: cache_bins_static [OF 4])
    have "set (drop ?n (m_trail ?s3)) \<subseteq> unit_implied (m_clauses s) (insert ?l (set (m_trail s)))"
      using probe_implied [of ?l s] by (meson in_set_dropD subset_iff)
    then have "cache_sound (m_clauses s) (set (m_trail s)) (m_cached_bins (snd (cache_bins ?l ?n (?s3, ?p2))))"
      using co by (intro cache_sound_cache_bins) (simp_all add: cache_ok_def)
    then have c3: "cache_sound (m_clauses s) (set (m_trail s)) (m_cached_bins p3)"
      using 4 by simp
    have "cache_sound (m_clauses (pop 1 s4)) (set (m_trail (pop 1 s4))) (m_cached_bins p3)"
      using fr by (rule cache_sound_frame [OF c3])
    then have co4: "cache_ok (pop 1 s4, p3)"
      by (simp only: cache_ok_def fst_conv snd_conv)
    have "trail_ok ?s3" "?l \<in> set (m_trail ?s3)"
      using probe_start [OF lu(1)] ok propagate_grows [of "assign_scoped ?l (push s)"]
      by (auto intro: trail_ok_propagate)
    then have "neg ?l \<notin> set (m_trail ?s3)"
      by (auto simp: trail_ok_def)
    then have xA: "neg ?l \<notin> m_assigned p3"
      using A3 by (auto dest: in_set_dropD)
    have t: "try_lit (neg ?l) True (pop 1 s4, p3) = (True, s6, p4)"
      using 6 that by simp
    have "neutral_state (unit_implied (m_clauses (pop 1 s4)) (insert (neg ?l) (set (m_trail (pop 1 s4)))))
        (neg (neg ?l)) (s6, p4)"
      using ok4 ninc4 lu4 ws4 co4 xA t by (rule try_lit_neutral_state)
    then obtain d where "fst (process_binary (neg (neg ?l)) 0 k (s6, p4)) = s6\<lparr>m_drat := d\<rparr>"
      using process_binary_neutral by blast
    then show ?thesis
      by simp
  qed
  have pc: "process_core v (s, p) =
      (if \<not> b then (s6, p4)
       else if m_probing_binary p4
       then process_binary ?l 0 (length (get_wlist s6 (neg ?l))) (s6, p4)
       else (s6, p4))"
    using False 4 6 by (simp add: process_core_no_conflict Let_def)
  have "unlog (fst (process_core v (s, p))) = unlog s6"
  proof (cases "b \<and> m_probing_binary p4")
    case True
    then show ?thesis
      using e [of "length (get_wlist s6 (neg ?l))"] by (simp only: pc) simp
  next
    case False
    then have "process_core v (s, p) = (s6, p4)"
      unfolding pc by auto
    then show ?thesis
      by simp
  qed
  then show ?thesis
    using e6 by simp
qed

lemma process_solver:
  assumes "trail_ok s" and "\<not> m_inconsistent s" and "var_value s v = l_undef"
    and "watch_sound s" and "cache_ok (s, p)"
  shows "unlog (fst (process v (s, p))) = process_solver v (unlog s)"
  using process_core_solver [OF assms]
  by (simp add: process_def Let_def case_prod_beta)

lemma probing_inv_process:
  assumes "probing_inv (s, p)"
  shows "probing_inv (process v (s, p))"
proof -
  have "solver_frame s (fst (process v (s, p)))"
    using process_frame [of s p v] by (simp add: frame_def)
  then have "watch_sound (fst (process v (s, p)))"
    using assms watch_sound_frame [of s "fst (process v (s, p))"]
    by (simp add: solver_frame_def probing_inv_def)
  then show ?thesis
    using assms trail_ok_process [of s v p] cache_ok_process [of s p v]
    by (simp add: probing_inv_def)
qed

lemma probing_inv_reset_cache: "probing_inv (s, p) \<Longrightarrow> probing_inv (s, reset_cache l p)"
  by (simp add: probing_inv_def cache_ok_def cache_sound_reset_cache)

lemma probing_inv_checkpoint:
  assumes "probing_inv (s, p)" and "checkpoint s = Some s1"
  shows "probing_inv (s1, p)"
proof -
  have "s1 = s \<or> (\<exists>k. s1 = s\<lparr>m_rlimit := k\<rparr>)"
    using assms(2) by (auto simp: checkpoint_def split: option.splits nat.splits)
  then show ?thesis
    using assms(1) by (auto simp: probing_inv_def cache_ok_def trail_ok_def watch_sound_def)
qed



lemma watch_sound_watches_of: "watch_sound (mk_solver cs (watches_of cs) n)"
  unfolding watch_sound_def
proof (intro allI ballI impI)
  fix l w
  assume w: "w \<in> set (m_watches (mk_solver cs (watches_of cs) n) l)" and b: "is_binary_clause w"
  from w obtain c where c: "c \<in> set cs" "neg l \<in> set c"
    "w \<in> set (case filter (\<lambda>x. x \<noteq> neg l) c of
                 [] \<Rightarrow> [] | [y] \<Rightarrow> [Watched True y] | y # _ \<Rightarrow> [Watched False y])"
    by (auto simp: mk_solver_def watches_of_def split: if_splits)
  have "\<exists>y. filter (\<lambda>x. x \<noteq> neg l) c = [y] \<and> w = Watched True y"
  proof (cases "filter (\<lambda>x. x \<noteq> neg l) c")
    case Nil
    then show ?thesis using c(3) by simp
  next
    case (Cons y rest)
    then show ?thesis
      using c(3) b by (cases rest) auto
  qed
  then obtain y where y: "filter (\<lambda>x. x \<noteq> neg l) c = [y]" "w = Watched True y"
    by blast
  have "set (filter (\<lambda>x. x \<noteq> neg l) c) = {y}"
    using y(1) by simp
  then have "y \<in> set c" "set c \<subseteq> {neg l, y}"
    by auto
  then show "\<exists>c \<in> set (m_clauses (mk_solver cs (watches_of cs) n)).
      neg l \<in> set c \<and> get_literal w \<in> set c \<and> set c \<subseteq> {neg l, get_literal w}"
    using c(1,2) y(2) by (auto simp: mk_solver_def)
qed


lemma probing_inv_pass_begin:
  assumes "trail_ok s" and "watch_sound s" and "cache_ok (s, p)"
  shows "probing_inv (pass_begin (s, p))"
proof -
  have "trail_ok (propagate s)"
    using assms(1) by (rule trail_ok_propagate)
  then have 1: "trail_ok ((propagate s)\<lparr>m_is_probing := True\<rparr>)"
    by (simp add: trail_ok_def)
  have 2: "watch_sound ((propagate s)\<lparr>m_is_probing := True\<rparr>)"
    using assms(2) by (rule watch_sound_frame) simp_all
  have "cache_sound (m_clauses s) (set (m_trail (propagate s))) (m_cached_bins p)"
    using assms(3) propagate_grows [of s] cache_sound_mono by (simp add: cache_ok_def)
  moreover have "cache_sound C T []" for C T
    by (simp add: cache_sound_def)
  ultimately show ?thesis
    using 1 2 by (simp add: probing_inv_def pass_begin_def cache_ok_def)
qed

lemma probing_inv_initial: "probing_inv (mk_solver cs (watches_of cs) n, mk_probing lim cache bin)"
proof -
  have "trail_ok (mk_solver cs (watches_of cs) n)"
    by (simp add: trail_ok_def mk_solver_def)
  moreover have "cache_ok (mk_solver cs (watches_of cs) n, mk_probing lim cache bin)"
    by (simp add: cache_ok_def cache_sound_def mk_probing_def)
  ultimately show ?thesis
    using watch_sound_watches_of [of cs n] by (simp add: probing_inv_def)
qed

lemma probing_inv_scan:
  "probing_inv (s, p) \<Longrightarrow> probing_inv (snd (scan limit num js (s, p)))"
proof -
  have "probing_inv (s, p) \<longrightarrow> probing_inv (snd (scan limit num js (s, p)))"
  proof (rule scan_rel [where R = "\<lambda>sp sp'. probing_inv sp \<longrightarrow> probing_inv sp'"])
    show "probing_inv (s, p) \<longrightarrow> probing_inv (process v (s, p))" for v s p
      by (simp add: probing_inv_process)
    show "probing_inv (s, p) \<longrightarrow> probing_inv (s1, p)" if "checkpoint s = Some s1" for s s1 p
      using that by (auto intro: probing_inv_checkpoint)
    show "probing_inv (s, p) \<longrightarrow> probing_inv (s, reset_cache l p)" for s p l
      by (simp add: probing_inv_reset_cache)
    show "probing_inv (s, p) \<longrightarrow> probing_inv (s, p\<lparr>m_stopped_at := v\<rparr>)" for s p v
      by (simp add: probing_inv_def cache_ok_def)
  qed auto
  then show "probing_inv (s, p) \<Longrightarrow> probing_inv (snd (scan limit num js (s, p)))"
    by simp
qed

lemma probing_inv_run:
  assumes "probing_inv (s, p)"
  shows "probing_inv (snd (run elim force (s, p)))"
proof (cases "pass_runs force (s, p)")
  case False
  have "probing_inv (propagate s, p)"
  proof -
    have "trail_ok (propagate s)"
      using assms by (simp add: probing_inv_def trail_ok_propagate)
    moreover have "watch_sound (propagate s)"
      using assms watch_sound_frame [of s "propagate s"] by (simp add: probing_inv_def)
    moreover have "cache_sound (m_clauses s) (set (m_trail (propagate s))) (m_cached_bins p)"
      using assms propagate_grows [of s] cache_sound_mono
      by (auto simp: probing_inv_def cache_ok_def)
    ultimately show ?thesis
      by (simp add: probing_inv_def cache_ok_def)
  qed
  then show ?thesis
    using False assms by (simp add: run_skipped)
next
  case runs: True
  obtain out s3 p3 where sc: "pass_scan (s, p) = (out, s3, p3)"
    by (cases "pass_scan (s, p)") auto
  have "probing_inv (pass_begin (s, p))"
    using assms by (intro probing_inv_pass_begin) (simp_all add: probing_inv_def)
  then have "probing_inv (snd (pass_scan (s, p)))"
    using probing_inv_scan [of "fst (pass_begin (s, p))" "snd (pass_begin (s, p))"]
    by (simp add: pass_scan_def)
  then have i3: "trail_ok s3" "watch_sound s3" "cache_ok (s3, p3)"
    using sc by (simp_all add: probing_inv_def)
  have 1: "trail_ok (s3\<lparr>m_is_probing := b\<rparr>)" for b
    using i3(1) by (simp add: trail_ok_def)
  have 2: "watch_sound (s3\<lparr>m_is_probing := b\<rparr>)" for b
    using i3(2) by (rule watch_sound_frame) simp_all
  show ?thesis
  proof (cases out)
    case (Returned r)
    then show ?thesis
      using run_returned [OF runs, of r s3 p3 elim] sc 1 2
      by (simp add: probing_inv_def cache_ok_def cache_sound_def finalize_def)
  next
    case Canceled
    then show ?thesis
      using run_canceled [OF runs, of s3 p3 elim] sc 1 2 i3(3)
      by (simp add: probing_inv_def cache_ok_def)
  qed
qed

subsection \<open>A full pass asserts the same literals with and without the cache\<close>



end
